theory Spec2Isabelle
  imports Complex_Main "HOL-Library.Sublist" "HOL-Library.Multiset" "HOL-Library.Log_Nat"
begin

section \<open>Values, errors and property lookup of the host language\<close>

text \<open>
  The utilities are TypeScript. Strings are modelled as \<^typ>\<open>string\<close>; characters outside
  ASCII that occur in source literals are written as their UTF-8 bytes. An exception (and
  the rejection of a promise) is a value of \<open>js_error\<close>; a computation that may throw
  returns \<open>js_error + 'a\<close>, and so does an awaited promise (\<open>Inl\<close> is the rejection).
\<close>

datatype js_error = TypeError | RangeError | Rejection string

text \<open>
  Reading \<open>obj[key]\<close> on an object literal: an own property wins, otherwise the key is
  looked up on \<open>Object.prototype\<close>, otherwise the result is \<open>undefined\<close>.
\<close>

datatype 'a js_property = Own 'a | Inherited string | Undefined

definition object_prototype_keys :: "string list" where
  "object_prototype_keys =
     [''constructor'', ''__defineGetter__'', ''__defineSetter__'', ''hasOwnProperty'',
      ''__lookupGetter__'', ''__lookupSetter__'', ''isPrototypeOf'', ''propertyIsEnumerable'',
      ''toString'', ''valueOf'', ''__proto__'', ''toLocaleString'']"

definition get_property :: "(string \<times> 'a) list \<Rightarrow> string \<Rightarrow> 'a js_property" where
  "get_property obj key =
     (case map_of obj key of
        Some v \<Rightarrow> Own v
      | None \<Rightarrow> if key \<in> set object_prototype_keys then Inherited key else Undefined)"

text \<open>Every inherited member is a function or an object, hence truthy; own values here too.\<close>

fun truthy :: "'a js_property \<Rightarrow> bool" where
  "truthy (Own _) = True"
| "truthy (Inherited _) = True"
| "truthy Undefined = False"

definition startsWith :: "string \<Rightarrow> string \<Rightarrow> bool" where
  "startsWith s p = prefix p s"

text \<open>\<open>Array.prototype.join\<close> with a separator, on an array of strings.\<close>

fun join :: "string \<Rightarrow> string list \<Rightarrow> string" where
  "join sep [] = []"
| "join sep [x] = x"
| "join sep (x # y # ys) = x @ sep @ join sep (y # ys)"

text \<open>
  \<open>Number.prototype.toString(radix)\<close> on an integral number, for a radix from 2 to 36
  (the only radices the callers pass).
\<close>

definition digit_char :: "nat \<Rightarrow> char" where
  "digit_char d = ''0123456789abcdefghijklmnopqrstuvwxyz'' ! d"

function nat_digits :: "nat \<Rightarrow> nat \<Rightarrow> string" where
  "nat_digits radix n =
     (if n < radix \<or> radix < 2 then [digit_char n]
      else nat_digits radix (n div radix) @ [digit_char (n mod radix)])"
  by pat_completeness auto
termination
  by (relation "measure (\<lambda>(radix, n). n)") auto

definition number_toString :: "nat \<Rightarrow> int \<Rightarrow> string" where
  "number_toString radix i =
     (if i < 0 then CHR ''-'' # nat_digits radix (nat (- i)) else nat_digits radix (nat i))"

text \<open>Reading digits back: the value of a digit string in a radix.\<close>

definition digit_value :: "char \<Rightarrow> nat" where
  "digit_value c = length (takeWhile (\<lambda>d. d \<noteq> c) ''0123456789abcdefghijklmnopqrstuvwxyz'')"

definition digits_value :: "nat \<Rightarrow> string \<Rightarrow> nat" where
  "digits_value radix s = foldl (\<lambda>a c. radix * a + digit_value c) 0 s"

section \<open>Numbers\<close>

text \<open>
  A number of the language is an IEEE 754 double. It is modelled by the real it denotes;
  every arithmetic operation rounds its exact result to the nearest double, ties to the
  even significand (\<open>fl\<close>: 53 significant bits). The exponent is unbounded here: overflow
  to infinity and the subnormal range are not modelled. \<open>ilog2 x\<close> is the binary exponent
  of a positive \<open>x\<close>.
\<close>

definition ilog2 :: "real \<Rightarrow> int" where
  "ilog2 x = (if 1 \<le> x then bitlen \<lfloor>x\<rfloor> - 1 else - bitlen (\<lceil>1 / x\<rceil> - 1))"

definition round_half_even :: "real \<Rightarrow> int" where
  "round_half_even y =
     (let f = \<lfloor>y\<rfloor>; d = y - of_int f in
      if d < 1 / 2 then f else if 1 / 2 < d then f + 1 else if even f then f else f + 1)"

definition fl :: "real \<Rightarrow> real" where
  "fl x =
     (if x = 0 then 0
      else let u = 2 powi (ilog2 \<bar>x\<bar> - 52) in of_int (round_half_even (x / u)) * u)"

definition times_d :: "real \<Rightarrow> real \<Rightarrow> real" where
  "times_d a b = fl (a * b)"

definition plus_d :: "real \<Rightarrow> real \<Rightarrow> real" where
  "plus_d a b = fl (a + b)"

definition minus_d :: "real \<Rightarrow> real \<Rightarrow> real" where
  "minus_d a b = fl (a - b)"

text \<open>
  \<open>Math.random()\<close> returns a double that is at least 0 and less than 1. The draws of a
  run are a sequence \<open>rnd\<close>; the number of draws made so far is threaded through every
  function that draws.
\<close>

type_synonym rng = "nat \<Rightarrow> real"

definition is_draw :: "real \<Rightarrow> bool" where
  "is_draw r \<longleftrightarrow> 0 \<le> r \<and> r < 1 \<and> fl r = r"

definition valid_rng :: "rng \<Rightarrow> bool" where
  "valid_rng rnd \<longleftrightarrow> (\<forall>i. is_draw (rnd i))"

definition Math_random :: "rng \<Rightarrow> nat \<Rightarrow> real \<times> nat" where
  "Math_random rnd k = (rnd k, Suc k)"

section \<open>Regular expressions\<close>

text \<open>
  The patterns of the validators use literal characters, character classes, greedy
  bounded repetition of a single character or class, one capture group and the two
  anchors. A pattern is the list of its terms; \<open>Rep a lo hi\<close> is \<open>a{lo,hi}\<close> (so \<open>a?\<close> is
  \<open>Rep a 0 1\<close>), \<open>GroupOpen\<close> and \<open>GroupClose\<close> bracket group 1. The matcher backtracks as
  the language's does: a repetition first tries to take one more character.
\<close>

datatype atom = Chr char | Cls "(char \<times> char) list"

datatype rterm = Bol | Eol | Rep atom nat nat | GroupOpen | GroupClose

definition code_point :: "char \<Rightarrow> nat" where
  "code_point c = of_char c"

definition chars_between :: "char \<Rightarrow> char \<Rightarrow> char list" where
  "chars_between lo hi = map char_of [code_point lo ..< Suc (code_point hi)]"

text \<open>
  Canonicalization under the \<open>i\<close> flag maps a character to its upper case. Here it is
  written out for ASCII letters; no character outside ASCII is mapped into ASCII.
\<close>

definition canonicalize :: "char \<Rightarrow> char" where
  "canonicalize c =
     (if code_point CHR ''a'' \<le> code_point c \<and> code_point c \<le> code_point CHR ''z''
      then char_of (code_point c - 32) else c)"

fun atom_chars :: "atom \<Rightarrow> char list" where
  "atom_chars (Chr a) = [a]"
| "atom_chars (Cls rs) = concat (map (\<lambda>(lo, hi). chars_between lo hi) rs)"

definition amatch :: "bool \<Rightarrow> atom \<Rightarrow> char \<Rightarrow> bool" where
  "amatch ignoreCase a c =
     (if ignoreCase then list_ex (\<lambda>x. canonicalize x = canonicalize c) (atom_chars a)
      else list_ex (\<lambda>x. x = c) (atom_chars a))"

type_synonym captures = "nat option \<times> nat option"

fun run :: "bool \<Rightarrow> rterm list \<Rightarrow> nat \<Rightarrow> string \<Rightarrow> captures \<Rightarrow> (nat \<times> captures) option" where
  "run ic [] pos rest cap = Some (pos, cap)"
| "run ic (Bol # ts) pos rest cap = (if pos = 0 then run ic ts pos rest cap else None)"
| "run ic (Eol # ts) pos rest cap = (if rest = [] then run ic ts pos rest cap else None)"
| "run ic (GroupOpen # ts) pos rest cap = run ic ts pos rest (Some pos, snd cap)"
| "run ic (GroupClose # ts) pos rest cap = run ic ts pos rest (fst cap, Some pos)"
| "run ic (Rep a lo hi # ts) pos rest cap =
     (case rest of
        [] \<Rightarrow> if lo = 0 then run ic ts pos rest cap else None
      | c # cs \<Rightarrow>
          if 0 < hi \<and> amatch ic a c then
            (case run ic (Rep a (lo - 1) (hi - 1) # ts) (Suc pos) cs cap of
               Some r \<Rightarrow> Some r
             | None \<Rightarrow> if lo = 0 then run ic ts pos rest cap else None)
          else if lo = 0 then run ic ts pos rest cap else None)"

text \<open>\<open>exec\<close> without the \<open>g\<close> flag: the first start position, from the left, with a match.\<close>

fun exec_from :: "bool \<Rightarrow> rterm list \<Rightarrow> nat \<Rightarrow> string \<Rightarrow> (nat \<times> nat \<times> captures) option" where
  "exec_from ic ts pos rest =
     (case run ic ts pos rest (None, None) of
        Some r \<Rightarrow> Some (pos, r)
      | None \<Rightarrow> (case rest of [] \<Rightarrow> None | c # cs \<Rightarrow> exec_from ic ts (Suc pos) cs))"

definition substring :: "string \<Rightarrow> nat \<Rightarrow> nat \<Rightarrow> string" where
  "substring s i j = take (j - i) (drop i s)"

text \<open>The match array: element 0 is the matched text, element 1 is group 1.\<close>

definition regex_exec :: "bool \<Rightarrow> rterm list \<Rightarrow> string \<Rightarrow> string option list option" where
  "regex_exec ic ts s =
     (case exec_from ic ts 0 s of
        None \<Rightarrow> None
      | Some (start, stop, (gs, ge)) \<Rightarrow>
          Some [Some (substring s start stop),
                (case (gs, ge) of (Some i, Some j) \<Rightarrow> Some (substring s i j) | _ \<Rightarrow> None)])"

section \<open>RandomUtils\<close>








text \<open>
  \<open>Array.prototype.sort(comparefn)\<close>. The language leaves the sequence of comparator
  calls to the engine. The bot runs on Node.js, whose engine V8 sorts with the merge sort of
  its builtin \<open>array-sort.tq\<close> (TimSort); the model follows that builtin function by
  function, under its names. The elements of the receiver that are not \<open>undefined\<close> are
  copied to a work array, sorted there and written back, followed by the \<open>undefined\<close> ones
  (\<open>None\<close>), which are never passed to the comparator; arrays have no holes here. A
  segment of the work array between two indices is a list. The comparator may draw random
  numbers, so it takes and returns the number of draws made; its result is a number (the
  comparator of this program never returns NaN).
\<close>

type_synonym 'a comparefn = "nat \<Rightarrow> 'a \<Rightarrow> 'a \<Rightarrow> real \<times> nat"

text \<open>
  \<open>ComputeMinRunLength\<close>: the loop \<open>while (n >= 64) { r = r | (n & 1); n = n >> 1 }\<close>;
  \<open>r\<close> is 0 or 1, so the bitwise or is a maximum. An array shorter than 64 is one run.
\<close>

function ComputeMinRunLength_from :: "nat \<Rightarrow> nat \<Rightarrow> nat" where
  "ComputeMinRunLength_from n r =
     (if 64 \<le> n then ComputeMinRunLength_from (n div 2) (max r (n mod 2)) else n + r)"
  by pat_completeness auto
termination
  by (relation "measure (\<lambda>(n, r). n)") auto

declare ComputeMinRunLength_from.simps [simp del]

definition ComputeMinRunLength :: "nat \<Rightarrow> nat" where
  "ComputeMinRunLength n = ComputeMinRunLength_from n 0"

text \<open>
  \<open>CountAndMakeRun\<close> finds the run at the start of the remaining segment: the first two
  elements are compared as \<open>Compare(a[low + 1], a[low])\<close>, the run is descending when the
  result is negative, and it is extended while the next element compared with the previous
  one keeps that direction. A descending run is reversed. \<open>run_extent\<close> is the loop,
  counting the elements after the first two; the result is the run, the rest of the segment
  and the draw counter.
\<close>

fun run_extent :: "'a comparefn \<Rightarrow> nat \<Rightarrow> bool \<Rightarrow> 'a \<Rightarrow> 'a list \<Rightarrow> nat \<times> nat" where
  "run_extent cmp k isDescending previousElement [] = (0, k)"
| "run_extent cmp k isDescending previousElement (currentElement # xs) =
     (case cmp k currentElement previousElement of
        (order, k') \<Rightarrow>
          if (if isDescending then 0 \<le> order else order < 0) then (0, k')
          else (case run_extent cmp k' isDescending currentElement xs of
                  (n, k'') \<Rightarrow> (Suc n, k'')))"

fun CountAndMakeRun :: "'a comparefn \<Rightarrow> nat \<Rightarrow> 'a list \<Rightarrow> 'a list \<times> 'a list \<times> nat" where
  "CountAndMakeRun cmp k [] = ([], [], k)"
| "CountAndMakeRun cmp k [x] = ([x], [], k)"
| "CountAndMakeRun cmp k (elementHigh # elementLow # xs) =
     (case cmp k elementLow elementHigh of
        (order, k1) \<Rightarrow>
          (case run_extent cmp k1 (order < 0) elementLow xs of
             (n, k2) \<Rightarrow>
               (if order < 0 then rev (elementHigh # elementLow # take n xs)
                else elementHigh # elementLow # take n xs,
                drop n xs, k2)))"

text \<open>
  \<open>BinaryInsertionSort\<close> extends a run that is shorter than the minimal run length: each
  pending element is the pivot of a binary search \<open>Compare(pivot, a[mid])\<close> in the run, and
  is inserted at the position found.
\<close>

function binary_search :: "'a comparefn \<Rightarrow> nat \<Rightarrow> 'a \<Rightarrow> 'a list \<Rightarrow> nat \<Rightarrow> nat \<Rightarrow> nat \<times> nat" where
  "binary_search cmp k pivot a left right =
     (if left < right then
        (case cmp k pivot (a ! (left + (right - left) div 2)) of
           (order, k') \<Rightarrow>
             if order < 0 then binary_search cmp k' pivot a left (left + (right - left) div 2)
             else binary_search cmp k' pivot a (left + (right - left) div 2 + 1) right)
      else (left, k))"
  by pat_completeness auto
termination
  by (relation "measure (\<lambda>(cmp, k, pivot, a, left, right). right - left)") auto

declare binary_search.simps [simp del]

fun BinaryInsertionSort :: "'a comparefn \<Rightarrow> nat \<Rightarrow> 'a list \<Rightarrow> 'a list \<Rightarrow> 'a list \<times> nat" where
  "BinaryInsertionSort cmp k currentRun [] = (currentRun, k)"
| "BinaryInsertionSort cmp k currentRun (pivot # pending) =
     (case binary_search cmp k pivot currentRun 0 (length currentRun) of
        (left, k') \<Rightarrow>
          BinaryInsertionSort cmp k' (take left currentRun @ pivot # drop left currentRun) pending)"

text \<open>
  \<open>GallopLeft\<close> and \<open>GallopRight\<close> search the position of a key in a run, starting at
  \<open>hint\<close>: the offset from the hint grows as \<open>offset * 2 + 1\<close> while the comparison
  allows (\<open>gallop_advance\<close>, the source's two \<open>while (offset < maxOfs)\<close> loops), then a
  binary search runs between the last two offsets (\<open>gallop_bisect\<close>). The probe of a loop
  says whether it goes on, the probe of the binary search whether it continues to the right.
\<close>

function gallop_advance ::
  "(nat \<Rightarrow> nat \<Rightarrow> bool \<times> nat) \<Rightarrow> nat \<Rightarrow> nat \<Rightarrow> nat \<Rightarrow> nat \<Rightarrow> nat \<times> nat \<times> nat" where
  "gallop_advance probe k lastOfs offset maxOfs =
     (if offset < maxOfs then
        (case probe k offset of
           (continue, k') \<Rightarrow>
             if continue then gallop_advance probe k' offset (offset * 2 + 1) maxOfs
             else (lastOfs, offset, k'))
      else (lastOfs, offset, k))"
  by pat_completeness auto
termination
  by (relation "measure (\<lambda>(probe, k, lastOfs, offset, maxOfs). maxOfs - offset)") auto

declare gallop_advance.simps [simp del]

function gallop_bisect :: "(nat \<Rightarrow> nat \<Rightarrow> bool \<times> nat) \<Rightarrow> nat \<Rightarrow> nat \<Rightarrow> nat \<Rightarrow> nat \<times> nat" where
  "gallop_bisect probe k lastOfs offset =
     (if lastOfs < offset then
        (case probe k (lastOfs + (offset - lastOfs) div 2) of
           (right, k') \<Rightarrow>
             if right then gallop_bisect probe k' (lastOfs + (offset - lastOfs) div 2 + 1) offset
             else gallop_bisect probe k' lastOfs (lastOfs + (offset - lastOfs) div 2))
      else (offset, k))"
  by pat_completeness auto
termination
  by (relation "measure (\<lambda>(probe, k, lastOfs, offset). offset - lastOfs)") auto

declare gallop_bisect.simps [simp del]

definition GallopLeft :: "'a comparefn \<Rightarrow> nat \<Rightarrow> 'a list \<Rightarrow> 'a \<Rightarrow> nat \<Rightarrow> nat \<times> nat" where
  "GallopLeft cmp k a key hint =
     (case cmp k (a ! hint) key of
        (order, k1) \<Rightarrow>
          (case (if order < 0 then
                   (case gallop_advance
                           (\<lambda>k offset. case cmp k (a ! (hint + offset)) key of
                                          (order, k') \<Rightarrow> (order < 0, k'))
                           k1 0 1 (length a - hint) of
                      (lastOfs, offset, k2) \<Rightarrow>
                        (lastOfs + hint + 1, min offset (length a - hint) + hint, k2))
                 else
                   (case gallop_advance
                           (\<lambda>k offset. case cmp k (a ! (hint - offset)) key of
                                          (order, k') \<Rightarrow> (0 \<le> order, k'))
                           k1 0 1 (hint + 1) of
                      (lastOfs, offset, k2) \<Rightarrow>
                        (hint + 1 - min offset (hint + 1), hint - lastOfs, k2))) of
             (lastOfs, offset, k3) \<Rightarrow>
               gallop_bisect (\<lambda>k m. case cmp k (a ! m) key of (order, k') \<Rightarrow> (order < 0, k'))
                 k3 lastOfs offset))"

definition GallopRight :: "'a comparefn \<Rightarrow> nat \<Rightarrow> 'a list \<Rightarrow> 'a \<Rightarrow> nat \<Rightarrow> nat \<times> nat" where
  "GallopRight cmp k a key hint =
     (case cmp k key (a ! hint) of
        (order, k1) \<Rightarrow>
          (case (if order < 0 then
                   (case gallop_advance
                           (\<lambda>k offset. case cmp k key (a ! (hint - offset)) of
                                          (order, k') \<Rightarrow> (order < 0, k'))
                           k1 0 1 (hint + 1) of
                      (lastOfs, offset, k2) \<Rightarrow>
                        (hint + 1 - min offset (hint + 1), hint - lastOfs, k2))
                 else
                   (case gallop_advance
                           (\<lambda>k offset. case cmp k key (a ! (hint + offset)) of
                                          (order, k') \<Rightarrow> (0 \<le> order, k'))
                           k1 0 1 (length a - hint) of
                      (lastOfs, offset, k2) \<Rightarrow>
                        (lastOfs + hint + 1, min offset (length a - hint) + hint, k2))) of
             (lastOfs, offset, k3) \<Rightarrow>
               gallop_bisect (\<lambda>k m. case cmp k key (a ! m) of (order, k') \<Rightarrow> (0 \<le> order, k'))
                 k3 lastOfs offset))"

text \<open>
  \<open>MergeLow\<close> merges the adjacent runs \<open>A\<close> and \<open>B\<close> from the left, \<open>A\<close> being the
  shorter one: \<open>out\<close> is the merged part, \<open>A\<close> what is left of the copy of the first run,
  \<open>B\<close> what is left of the second. The straight loop takes one element per comparison
  \<open>Compare(B[0], A[0])\<close> until one run has won \<open>minGallop\<close> times in a row; the galloping
  loop then moves the elements found by \<open>GallopRight\<close> and \<open>GallopLeft\<close> at once, as long
  as one of them finds at least \<open>kMinGallopWins\<close> elements. The exits are the source's
  labels \<open>Succeed\<close> (one run is used up) and \<open>CopyB\<close> (one element of \<open>A\<close> is left,
  which goes last). Both loops are entered with more than one element in \<open>A\<close> and at
  least one in \<open>B\<close>, as the source asserts; the last equation of each function covers
  the other arguments. The result carries \<open>minGallop\<close>, which the sort state keeps from
  one merge to the next.
\<close>

definition kMinGallopWins :: nat where
  "kMinGallopWins = 7"

function (sequential)
  MergeLow_straight :: "'a comparefn \<Rightarrow> nat \<Rightarrow> nat \<Rightarrow> nat \<Rightarrow> nat \<Rightarrow> 'a list \<Rightarrow> 'a list \<Rightarrow> 'a list
                          \<Rightarrow> 'a list \<times> nat \<times> nat"
  and MergeLow_gallop :: "'a comparefn \<Rightarrow> nat \<Rightarrow> nat \<Rightarrow> 'a list \<Rightarrow> 'a list \<Rightarrow> 'a list
                          \<Rightarrow> 'a list \<times> nat \<times> nat"
where
  "MergeLow_straight cmp k minGallop nofWinsA nofWinsB out (a # A) (b # B) =
     (case cmp k b a of
        (order, k') \<Rightarrow>
          if order < 0 then
            (if B = [] then (out @ [b] @ a # A, minGallop, k')
             else if minGallop \<le> nofWinsB + 1
               then MergeLow_gallop cmp k' (minGallop + 1) (out @ [b]) (a # A) B
             else MergeLow_straight cmp k' minGallop 0 (nofWinsB + 1) (out @ [b]) (a # A) B)
          else
            (if length A = 1 then (out @ [a] @ (b # B) @ A, minGallop, k')
             else if minGallop \<le> nofWinsA + 1
               then MergeLow_gallop cmp k' (minGallop + 1) (out @ [a]) A (b # B)
             else MergeLow_straight cmp k' minGallop (nofWinsA + 1) 0 (out @ [a]) A (b # B)))"
| "MergeLow_straight cmp k minGallop nofWinsA nofWinsB out A B = (out @ A @ B, minGallop, k)"
| "MergeLow_gallop cmp k minGallop0 out (a # A) (b # B) =
     (let minGallop = max 1 (minGallop0 - 1) in
      case GallopRight cmp k (a # A) b 0 of
        (nofWinsA, k1) \<Rightarrow>
          let out1 = out @ take nofWinsA (a # A); A1 = drop nofWinsA (a # A) in
          if 0 < nofWinsA \<and> length A1 = 1 then (out1 @ (b # B) @ A1, minGallop, k1)
          else if 0 < nofWinsA \<and> A1 = [] then (out1 @ b # B, minGallop, k1)
          else if B = [] then (out1 @ [b] @ A1, minGallop, k1)
          else
            (case GallopLeft cmp k1 B (hd A1) 0 of
               (nofWinsB, k2) \<Rightarrow>
                 let out2 = out1 @ [b] @ take nofWinsB B; B1 = drop nofWinsB B in
                 if 0 < nofWinsB \<and> B1 = [] then (out2 @ A1, minGallop, k2)
                 else if length (tl A1) = 1 then (out2 @ [hd A1] @ B1 @ tl A1, minGallop, k2)
                 else if kMinGallopWins \<le> nofWinsA \<or> kMinGallopWins \<le> nofWinsB
                   then MergeLow_gallop cmp k2 minGallop (out2 @ [hd A1]) (tl A1) B1
                 else MergeLow_straight cmp k2 (minGallop + 1) 0 0 (out2 @ [hd A1]) (tl A1) B1))"
| "MergeLow_gallop cmp k minGallop0 out A B = (out @ A @ B, max 1 (minGallop0 - 1), k)"
  by pat_completeness auto
termination
  apply (relation "measure (\<lambda>s. case s of
                     Inl (cmp, k, minGallop, nofWinsA, nofWinsB, out, A, B) \<Rightarrow> length A + length B
                   | Inr (cmp, k, minGallop, out, A, B) \<Rightarrow> length A + length B)")
      apply auto
  done

definition MergeLow :: "'a comparefn \<Rightarrow> nat \<Rightarrow> nat \<Rightarrow> 'a list \<Rightarrow> 'a list \<Rightarrow> 'a list \<times> nat \<times> nat" where
  "MergeLow cmp k minGallop A B =
     (if tl B = [] then ([hd B] @ A, minGallop, k)
      else if length A = 1 then ([hd B] @ tl B @ A, minGallop, k)
      else MergeLow_straight cmp k minGallop 0 0 [hd B] A (tl B))"

text \<open>
  \<open>MergeHigh\<close> is the mirror image, for a second run shorter than the first: it merges
  from the right, comparing \<open>Compare(B[last], A[last])\<close>, with the exits \<open>Succeed\<close> and
  \<open>CopyA\<close> (one element of \<open>B\<close> is left, which goes first). Both loops are entered with
  at least one element in \<open>A\<close> and more than one in \<open>B\<close>; their first test covers the
  other arguments.
\<close>

function
  MergeHigh_straight :: "'a comparefn \<Rightarrow> nat \<Rightarrow> nat \<Rightarrow> nat \<Rightarrow> nat \<Rightarrow> 'a list \<Rightarrow> 'a list \<Rightarrow> 'a list
                          \<Rightarrow> 'a list \<times> nat \<times> nat"
  and MergeHigh_gallop :: "'a comparefn \<Rightarrow> nat \<Rightarrow> nat \<Rightarrow> 'a list \<Rightarrow> 'a list \<Rightarrow> 'a list
                          \<Rightarrow> 'a list \<times> nat \<times> nat"
where
  "MergeHigh_straight cmp k minGallop nofWinsA nofWinsB A B out =
     (if A = [] \<or> B = [] then (A @ B @ out, minGallop, k)
      else
        (case cmp k (last B) (last A) of
           (order, k') \<Rightarrow>
             if order < 0 then
               (if butlast A = [] then (B @ last A # out, minGallop, k')
                else if minGallop \<le> nofWinsA + 1
                  then MergeHigh_gallop cmp k' (minGallop + 1) (butlast A) B (last A # out)
                else MergeHigh_straight cmp k' minGallop (nofWinsA + 1) 0 (butlast A) B
                       (last A # out))
             else
               (if length (butlast B) = 1 then (butlast B @ A @ last B # out, minGallop, k')
                else if minGallop \<le> nofWinsB + 1
                  then MergeHigh_gallop cmp k' (minGallop + 1) A (butlast B) (last B # out)
                else MergeHigh_straight cmp k' minGallop 0 (nofWinsB + 1) A (butlast B)
                       (last B # out))))"
| "MergeHigh_gallop cmp k minGallop0 A B out =
     (let minGallop = max 1 (minGallop0 - 1) in
      if A = [] \<or> B = [] then (A @ B @ out, minGallop, k)
      else
        (case GallopRight cmp k A (last B) (length A - 1) of
           (kA, k1) \<Rightarrow>
             let nofWinsA = length A - kA; out1 = drop kA A @ out; A1 = take kA A in
             if 0 < nofWinsA \<and> A1 = [] then (B @ out1, minGallop, k1)
             else if length (butlast B) = 1 then (butlast B @ A1 @ last B # out1, minGallop, k1)
             else
               (case GallopLeft cmp k1 (butlast B) (last A1) (length (butlast B) - 1) of
                  (kB, k2) \<Rightarrow>
                    let nofWinsB = length (butlast B) - kB;
                        out2 = drop kB (butlast B) @ last B # out1;
                        B1 = take kB (butlast B) in
                    if 0 < nofWinsB \<and> length B1 = 1 then (B1 @ A1 @ out2, minGallop, k2)
                    else if 0 < nofWinsB \<and> B1 = [] then (A1 @ out2, minGallop, k2)
                    else if butlast A1 = [] then (B1 @ last A1 # out2, minGallop, k2)
                    else if kMinGallopWins \<le> nofWinsA \<or> kMinGallopWins \<le> nofWinsB
                      then MergeHigh_gallop cmp k2 minGallop (butlast A1) B1 (last A1 # out2)
                    else MergeHigh_straight cmp k2 (minGallop + 1) 0 0 (butlast A1) B1
                           (last A1 # out2))))"
  by pat_completeness auto
termination
  apply (relation "measure (\<lambda>s. case s of
                     Inl (cmp, k, minGallop, nofWinsA, nofWinsB, A, B, out) \<Rightarrow> length A + length B
                   | Inr (cmp, k, minGallop, A, B, out) \<Rightarrow> length A + length B)")
      apply (auto simp flip: length_greater_0_conv)
  done

declare MergeHigh_straight.simps [simp del] MergeHigh_gallop.simps [simp del]

definition MergeHigh :: "'a comparefn \<Rightarrow> nat \<Rightarrow> nat \<Rightarrow> 'a list \<Rightarrow> 'a list \<Rightarrow> 'a list \<times> nat \<times> nat" where
  "MergeHigh cmp k minGallop A B =
     (if butlast A = [] then (B @ [last A], minGallop, k)
      else if length B = 1 then (B @ butlast A @ [last A], minGallop, k)
      else MergeHigh_straight cmp k minGallop 0 0 (butlast A) B [last A])"

text \<open>
  \<open>MergeAt\<close> merges the runs \<open>i\<close> and \<open>i + 1\<close> of the stack of pending runs. The
  elements of \<open>A\<close> that are already in place before the first element of \<open>B\<close>, and the
  elements of \<open>B\<close> that are in place after the last element of \<open>A\<close>, stay where they
  are. The stack is the list of the pending runs, from the bottom; the runs are adjacent in
  the work array, so the array up to the current position is their concatenation.
\<close>

definition merge_runs :: "'a comparefn \<Rightarrow> nat \<Rightarrow> nat \<Rightarrow> 'a list \<Rightarrow> 'a list \<Rightarrow> 'a list \<times> nat \<times> nat" where
  "merge_runs cmp k minGallop A B =
     (case GallopRight cmp k A (hd B) 0 of
        (kA, k1) \<Rightarrow>
          if length A - kA = 0 then (A @ B, minGallop, k1)
          else
            (case GallopLeft cmp k1 B (last A) (length B - 1) of
               (lengthB, k2) \<Rightarrow>
                 if lengthB = 0 then (A @ B, minGallop, k2)
                 else
                   (case (if length A - kA \<le> lengthB
                          then MergeLow cmp k2 minGallop (drop kA A) (take lengthB B)
                          else MergeHigh cmp k2 minGallop (drop kA A) (take lengthB B)) of
                      (merged, minGallop', k3) \<Rightarrow>
                        (take kA A @ merged @ drop lengthB B, minGallop', k3))))"

definition MergeAt :: "'a comparefn \<Rightarrow> nat \<Rightarrow> nat \<Rightarrow> 'a list list \<Rightarrow> nat \<Rightarrow> 'a list list \<times> nat \<times> nat" where
  "MergeAt cmp k minGallop pendingRuns i =
     (case merge_runs cmp k minGallop (pendingRuns ! i) (pendingRuns ! (i + 1)) of
        (merged, minGallop', k') \<Rightarrow>
          (take i pendingRuns @ merged # drop (i + 2) pendingRuns, minGallop', k'))"

text \<open>
  \<open>MergeCollapse\<close> merges pending runs until the run lengths on the stack satisfy the
  invariant; \<open>MergeForceCollapse\<close> merges until one run is left.
\<close>

definition RunInvariantEstablished :: "'a list list \<Rightarrow> nat \<Rightarrow> bool" where
  "RunInvariantEstablished pendingRuns n =
     (if n < 2 then True
      else length (pendingRuns ! n) + length (pendingRuns ! (n - 1)) < length (pendingRuns ! (n - 2)))"

function MergeCollapse :: "'a comparefn \<Rightarrow> nat \<Rightarrow> nat \<Rightarrow> 'a list list \<Rightarrow> 'a list list \<times> nat \<times> nat" where
  "MergeCollapse cmp k minGallop pendingRuns =
     (if 1 < length pendingRuns then
        (let n = length pendingRuns - 2 in
         if \<not> RunInvariantEstablished pendingRuns (n + 1) \<or> \<not> RunInvariantEstablished pendingRuns n
         then
           (case MergeAt cmp k minGallop pendingRuns
                   (if length (pendingRuns ! (n - 1)) < length (pendingRuns ! (n + 1)) then n - 1 else n) of
              (pendingRuns', minGallop', k') \<Rightarrow> MergeCollapse cmp k' minGallop' pendingRuns')
         else if length (pendingRuns ! n) \<le> length (pendingRuns ! (n + 1))
         then
           (case MergeAt cmp k minGallop pendingRuns n of
              (pendingRuns', minGallop', k') \<Rightarrow> MergeCollapse cmp k' minGallop' pendingRuns')
         else (pendingRuns, minGallop, k))
      else (pendingRuns, minGallop, k))"
  by pat_completeness auto
termination
  apply (relation "measure (\<lambda>(cmp, k, minGallop, pendingRuns). length pendingRuns)")
    apply (auto simp: MergeAt_def split: prod.splits if_splits)
  done

declare MergeCollapse.simps [simp del]

function MergeForceCollapse :: "'a comparefn \<Rightarrow> nat \<Rightarrow> nat \<Rightarrow> 'a list list \<Rightarrow> 'a list list \<times> nat \<times> nat" where
  "MergeForceCollapse cmp k minGallop pendingRuns =
     (if 1 < length pendingRuns then
        (let n = length pendingRuns - 2 in
         case MergeAt cmp k minGallop pendingRuns
                (if 0 < n \<and> length (pendingRuns ! (n - 1)) < length (pendingRuns ! (n + 1))
                 then n - 1 else n) of
           (pendingRuns', minGallop', k') \<Rightarrow> MergeForceCollapse cmp k' minGallop' pendingRuns')
      else (pendingRuns, minGallop, k))"
  by pat_completeness auto
termination
  apply (relation "measure (\<lambda>(cmp, k, minGallop, pendingRuns). length pendingRuns)")
   apply (auto simp: MergeAt_def split: prod.splits if_splits)
  done

declare MergeForceCollapse.simps [simp del]

text \<open>
  The main loop of \<open>ArrayTimSortImpl\<close>: find the next run, extend it to the minimal run
  length, push it and collapse the stack, until nothing remains; then merge all pending
  runs. \<open>minGallop\<close> starts at \<open>kMinGallopWins\<close>. A work array of fewer than two elements
  is left alone.
\<close>

function TimSort_loop ::
  "'a comparefn \<Rightarrow> nat \<Rightarrow> nat \<Rightarrow> nat \<Rightarrow> 'a list list \<Rightarrow> 'a list \<Rightarrow> 'a list list \<times> nat \<times> nat" where
  "TimSort_loop cmp k minGallop minRunLength pendingRuns remaining =
     (if remaining = [] then (pendingRuns, minGallop, k)
      else
        (case CountAndMakeRun cmp k remaining of
           (currentRun, rest, k1) \<Rightarrow>
             (case (if length currentRun < minRunLength
                    then
                      (let forcedRunLength = min minRunLength (length remaining) in
                       case BinaryInsertionSort cmp k1 currentRun (take (forcedRunLength - length currentRun) rest) of
                         (currentRun', k2) \<Rightarrow> (currentRun', drop (forcedRunLength - length currentRun) rest, k2))
                    else (currentRun, rest, k1)) of
                (currentRun', rest', k2) \<Rightarrow>
                  (case MergeCollapse cmp k2 minGallop (pendingRuns @ [currentRun']) of
                     (pendingRuns', minGallop', k3) \<Rightarrow>
                       TimSort_loop cmp k3 minGallop' minRunLength pendingRuns' rest'))))"
  by pat_completeness auto
termination
  apply (relation "measure (\<lambda>(cmp, k, minGallop, minRunLength, pendingRuns, remaining). length remaining)")
   apply simp
  subgoal for cmp k minGallop minRunLength pendingRuns remaining
    by (cases "(cmp, k, remaining)" rule: CountAndMakeRun.cases)
       (auto split: prod.splits if_splits simp: Let_def)
  done

declare TimSort_loop.simps [simp del]

definition ArrayTimSortImpl :: "'a comparefn \<Rightarrow> nat \<Rightarrow> 'a list \<Rightarrow> 'a list \<times> nat" where
  "ArrayTimSortImpl cmp k workArray =
     (if length workArray < 2 then (workArray, k)
      else
        (case TimSort_loop cmp k kMinGallopWins (ComputeMinRunLength (length workArray)) [] workArray of
           (pendingRuns, minGallop, k1) \<Rightarrow>
             (case MergeForceCollapse cmp k1 minGallop pendingRuns of
                (pendingRuns', minGallop', k2) \<Rightarrow> (concat pendingRuns', k2))))"

text \<open>
  \<open>ArrayPrototypeSort\<close>: a receiver of length below two is returned as it is; otherwise
  the elements that are not \<open>undefined\<close> are sorted and the \<open>undefined\<close> ones follow.
\<close>

definition Array_sort :: "'a comparefn \<Rightarrow> nat \<Rightarrow> 'a option list \<Rightarrow> 'a option list \<times> nat" where
  "Array_sort cmp k xs =
     (if length xs < 2 then (xs, k)
      else
        (case ArrayTimSortImpl cmp k (map the (filter (\<lambda>x. x \<noteq> None) xs)) of
           (ys, k') \<Rightarrow> (map Some ys @ filter (\<lambda>x. x = None) xs, k')))"

text \<open>
  Arrays are objects in a store, addressed by references: \<open>sort\<close> writes the sorted
  elements back into the array it is called on and returns that same reference. Calling
  a method on something that is not an object throws a TypeError.
\<close>

type_synonym ref = nat

type_synonym 'a heap = "ref \<rightharpoonup> 'a option list"

definition shuffle_compare :: "rng \<Rightarrow> 'a comparefn" where
  "shuffle_compare rnd k a b = (case Math_random rnd k of (r, k') \<Rightarrow> (minus_d r (1 / 2), k'))"

definition shuffleArray :: "rng \<Rightarrow> nat \<Rightarrow> 'a heap \<Rightarrow> ref \<Rightarrow> js_error + (ref \<times> 'a heap \<times> nat)" where
  "shuffleArray rnd k h array =
     (case h array of
        None \<Rightarrow> Inl TypeError
      | Some xs \<Rightarrow>
          (case Array_sort (shuffle_compare rnd) k xs of
             (ys, k') \<Rightarrow> Inr (array, h(array \<mapsto> ys), k')))"

text \<open>
  \<open>randomColor\<close> draws again, by calling itself, until the text has seven characters;
  \<open>None\<close> stands for a run that never returns.
\<close>

partial_function (option) randomColor :: "rng \<Rightarrow> nat \<Rightarrow> (string \<times> nat) option" where
  "randomColor rnd k =
     (case Math_random rnd k of
        (r, k') \<Rightarrow>
          (let randomColor' = ''#'' @ number_toString 16 \<lfloor>times_d r 16777215\<rfloor> in
           if length randomColor' = 7 then Some (randomColor', k') else randomColor rnd k'))"

definition randomNumber :: "rng \<Rightarrow> nat \<Rightarrow> real \<Rightarrow> real \<Rightarrow> int \<times> nat" where
  "randomNumber rnd k min' max' =
     (case Math_random rnd k of
        (r, k') \<Rightarrow> (\<lfloor>plus_d (times_d r (plus_d (minus_d max' min') 1)) min'\<rfloor>, k'))"

section \<open>PermissionUtils\<close>

definition auml :: string where "auml = [CHR 0xC3, CHR 0xA4]"
definition uuml :: string where "uuml = [CHR 0xC3, CHR 0xBC]"
definition Ouml :: string where "Ouml = [CHR 0xC3, CHR 0x96]"
definition low_quote :: string where "low_quote = [CHR 0xE2, CHR 0x80, CHR 0x9E]"
definition high_quote :: string where "high_quote = [CHR 0xE2, CHR 0x80, CHR 0x9C]"

definition permissionLocalizations :: "(string \<times> string) list" where
  "permissionLocalizations =
    [(''AddReactions'', ''Reaktionen hinzuf'' @ uuml @ ''gen''),
     (''Administrator'', ''Administrator''),
     (''AttachFiles'', ''Dateien anh'' @ auml @ ''ngen''),
     (''BanMembers'', ''Mitglieder bannen''),
     (''ChangeNickname'', ''Nickname '' @ auml @ ''ndern''),
     (''Connect'', ''Verbinden''),
     (''CreateEvents'', ''Events erstellen''),
     (''CreateGuildExpressions'', ''Ausdr'' @ uuml @ ''cke erstellen''),
     (''CreateInstantInvite'', ''Einladung erstellen''),
     (''CreatePrivateThreads'', ''Private Threads erstellen''),
     (''CreatePublicThreads'', Ouml @ ''ffentliche Threads erstellen''),
     (''DeafenMembers'', ''Ein- und Ausgabe von Mitgliedern deaktivieren''),
     (''EmbedLinks'', ''Links einbetten''),
     (''KickMembers'', ''Mitglieder kicken''),
     (''ManageChannels'', ''Kan'' @ auml @ ''le verwalten''),
     (''ManageEmojisAndStickers'', ''Ausdr'' @ uuml @ ''cke verwalten''),
     (''ManageEvents'', ''Events verwalten''),
     (''ManageGuild'', ''Server verwalten''),
     (''ManageGuildExpressions'', ''Ausdr'' @ uuml @ ''cke verwalten''),
     (''ManageMessages'', ''Nachrichten verwalten''),
     (''ManageNicknames'', ''Nicknames verwalten''),
     (''ManageRoles'', ''Rollen verwalten''),
     (''ManageThreads'', ''Threads verwalten''),
     (''ManageWebhooks'', ''Webhooks verwalten''),
     (''MentionEveryone'',
        ''Erw'' @ auml @ ''hne @everyone, @here und '' @ low_quote @ ''Alle Rollen'' @ high_quote),
     (''ModerateMembers'', ''Mitglieder im Timeout''),
     (''MoveMembers'', ''Mitglieder verschieben''),
     (''MuteMembers'', ''Mitglieder stummschalten''),
     (''PrioritySpeaker'', ''Very Important Speaker''),
     (''ReadMessageHistory'', ''Nachrichtenverlauf anzeigen''),
     (''RequestToSpeak'', ''Redeanfrage''),
     (''SendMessages'', ''Nachrichten senden''),
     (''SendMessagesInThreads'', ''Nachrichten in Threads senden''),
     (''SendPolls'', ''Umfragen erstellen''),
     (''SendTTSMessages'', ''Text-zu-Sprache-Nachrichten senden''),
     (''SendVoiceMessages'', ''Sprachnachrichten senden''),
     (''Speak'', ''Sprechen''),
     (''Stream'', ''Streamen''),
     (''UseApplicationCommands'', ''Anwendungsbefehle verwenden''),
     (''UseEmbeddedActivities'', ''Aktivit'' @ auml @ ''ten nutzen''),
     (''UseExternalEmojis'', ''Externe Emojis verwenden''),
     (''UseExternalSounds'', ''Externe Sounds verwenden''),
     (''UseExternalStickers'', ''Externe Sticker verwenden''),
     (''UseSoundboard'', ''Soundboard verwenden''),
     (''UseVAD'', ''Sprachaktivierung verwenden''),
     (''ViewAuditLog'', ''Audit-Log einsehen''),
     (''ViewChannel'', ''Kan'' @ auml @ ''le ansehen''),
     (''ViewCreatorMonetizationAnalytics'', ''Monetarisierungsanalysen einsehen''),
     (''ViewGuildInsights'', ''Server-Insights einsehen'')]"

definition getPermissionName :: "string \<Rightarrow> string js_property" where
  "getPermissionName permission = get_property permissionLocalizations permission"

section \<open>ValidationUtils: urlIsImage\<close>

text \<open>
  The value of a response header as the HTTP client declares it (a string, a list of
  strings, a number, a boolean or \<open>null\<close>); an absent header reads as \<open>undefined\<close>,
  here \<open>None\<close>. Calling \<open>.toString()\<close> on \<open>undefined\<close> or \<open>null\<close> throws a TypeError.
\<close>

datatype header_value = HStr string | HList "string list" | HNum int | HBool bool | HNull

record axios_response =
  status :: int
  headers :: "string \<rightharpoonup> header_value"

fun header_toString :: "header_value option \<Rightarrow> js_error + string" where
  "header_toString None = Inl TypeError"
| "header_toString (Some HNull) = Inl TypeError"
| "header_toString (Some (HStr s)) = Inr s"
| "header_toString (Some (HList xs)) = Inr (join '','' xs)"
| "header_toString (Some (HNum n)) = Inr (number_toString 10 n)"
| "header_toString (Some (HBool b)) = Inr (if b then ''true'' else ''false'')"

text \<open>
  \<open>head\<close> is the outcome of the awaited request for each URL. The body of the \<open>try\<close>
  block and the \<open>catch\<close> clause are kept apart, as in the source.
\<close>

definition urlIsImage_try :: "(string \<Rightarrow> js_error + axios_response) \<Rightarrow> string \<Rightarrow> js_error + bool" where
  "urlIsImage_try head url =
     (case head url of
        Inl e \<Rightarrow> Inl e
      | Inr response \<Rightarrow>
          (case header_toString (headers response ''content-type'') of
             Inl e \<Rightarrow> Inl e
           | Inr s \<Rightarrow> Inr (startsWith s ''image/'')))"

definition urlIsImage :: "(string \<Rightarrow> js_error + axios_response) \<Rightarrow> string \<Rightarrow> js_error + bool" where
  "urlIsImage head url =
     (case urlIsImage_try head url of
        Inl error \<Rightarrow> Inr False
      | Inr b \<Rightarrow> Inr b)"

section \<open>ValidationUtils: stringIsHexColor and resolveUser\<close>

text \<open>The pattern \<^verbatim>\<open>/^#?[0-9A-F]{6}$/i\<close>.\<close>

definition HEX_COLOR :: "rterm list" where
  "HEX_COLOR =
     [Bol, Rep (Chr CHR ''#'') 0 1,
      Rep (Cls [(CHR ''0'', CHR ''9''), (CHR ''A'', CHR ''F'')]) 6 6, Eol]"

definition stringIsHexColor :: "string \<Rightarrow> bool" where
  "stringIsHexColor str = (regex_exec True HEX_COLOR str \<noteq> None)"

text \<open>
  The wording of the specification: an optional leading \<open>#\<close> followed by exactly six
  hexadecimal digits, in either case.
\<close>

definition is_hex_digit :: "char \<Rightarrow> bool" where
  "is_hex_digit c \<longleftrightarrow> c \<in> set ''0123456789abcdefABCDEF''"

definition six_hex_digits :: "string \<Rightarrow> bool" where
  "six_hex_digits ds \<longleftrightarrow> length ds = 6 \<and> list_all is_hex_digit ds"

definition hex_color_spec :: "string \<Rightarrow> bool" where
  "hex_color_spec s \<longleftrightarrow>
     six_hex_digits s \<or> (case s of [] \<Rightarrow> False | c # ds \<Rightarrow> c = CHR ''#'' \<and> six_hex_digits ds)"

text \<open>The pattern \<^verbatim>\<open>/<?@?!?(\d{17,20})>?/\<close>.\<close>

definition USER_MENTION :: "rterm list" where
  "USER_MENTION =
     [Rep (Chr CHR ''<'') 0 1, Rep (Chr CHR ''@'') 0 1, Rep (Chr CHR ''!'') 0 1,
      GroupOpen, Rep (Cls [(CHR ''0'', CHR ''9'')]) 17 20, GroupClose,
      Rep (Chr CHR ''>'') 0 1]"

text \<open>
  A user of the client library, with the fields the resolver reads. The user name of a
  partial user is \<open>null\<close>, here \<open>None\<close>. The client offers \<open>users.fetch\<close>, whose promise
  fulfils with a user or rejects, and \<open>users.cache\<close>, a collection that keeps its users in
  insertion order.
\<close>

record user =
  user_id :: string
  username :: "string option"

record client =
  users_fetch :: "string option \<Rightarrow> js_error + user"
  users_cache :: "user list"

text \<open>
  \<open>String.prototype.toLowerCase\<close> is the Unicode lower-casing of the language. It is not
  written out: the functions that call it take it as their parameter \<open>toLowerCase\<close>.
\<close>

definition string_includes :: "string \<Rightarrow> string \<Rightarrow> bool" where
  "string_includes s part = sublist part s"

text \<open>\<open>p.catch((): void => {})\<close>: a rejection becomes a promise fulfilled with \<open>undefined\<close>.\<close>

fun catch_void :: "js_error + 'a \<Rightarrow> js_error + 'a option" where
  "catch_void (Inl e) = Inr None"
| "catch_void (Inr v) = Inr (Some v)"

text \<open>Element \<open>i\<close> of a match array.\<close>

definition match_at :: "string option list \<Rightarrow> nat \<Rightarrow> string option" where
  "match_at m i = (if i < length m then m ! i else None)"

text \<open>
  The callback given to \<open>find\<close>:
  \<^verbatim>\<open>x.username === query || x.username.toLowerCase().includes(query.toLowerCase())\<close>.
  The right operand is evaluated only when the left one is false, and calling a method on
  \<open>null\<close> throws a TypeError.
\<close>

definition find_callback :: "(string \<Rightarrow> string) \<Rightarrow> string \<Rightarrow> user \<Rightarrow> js_error + bool" where
  "find_callback toLowerCase query x =
     (if username x = Some query then Inr True
      else (case username x of
              None \<Rightarrow> Inl TypeError
            | Some name \<Rightarrow> Inr (string_includes (toLowerCase name) (toLowerCase query))))"

text \<open>
  \<open>find\<close> on a collection calls the callback on the entries in order and returns the
  first entry for which it is true, or \<open>undefined\<close>; an exception of the callback leaves
  the search.
\<close>

fun collection_find :: "('a \<Rightarrow> js_error + bool) \<Rightarrow> 'a list \<Rightarrow> js_error + 'a option" where
  "collection_find f [] = Inr None"
| "collection_find f (x # xs) =
     (case f x of
        Inl e \<Rightarrow> Inl e
      | Inr found \<Rightarrow> if found then Inr (Some x) else collection_find f xs)"

text \<open>The part of \<open>resolveUser\<close> after the mention lookup: the search of the cache.\<close>

definition resolveUser_cached ::
  "(string \<Rightarrow> string) \<Rightarrow> client \<Rightarrow> string \<Rightarrow> bool \<Rightarrow> js_error + user option" where
  "resolveUser_cached toLowerCase cl query exact =
     (let matchingUsernames = filter (\<lambda>user. username user = Some query) (users_cache cl) in
      if length matchingUsernames = 1 then Inr (Some (hd matchingUsernames))
      else if \<not> exact then
        collection_find (find_callback toLowerCase query) (users_cache cl)
      else Inr None)"

definition resolveUser ::
  "(string \<Rightarrow> string) \<Rightarrow> client \<Rightarrow> string \<Rightarrow> bool \<Rightarrow> js_error + user option" where
  "resolveUser toLowerCase cl query exact =
     (if query = [] then Inr None
      else
        (case regex_exec False USER_MENTION query of
           Some patternMatch \<Rightarrow>
             (case catch_void (users_fetch cl (match_at patternMatch 1)) of
                Inl e \<Rightarrow> Inl e
              | Inr (Some fetchedUser) \<Rightarrow> Inr (Some fetchedUser)
              | Inr None \<Rightarrow> resolveUser_cached toLowerCase cl query exact)
         | None \<Rightarrow> resolveUser_cached toLowerCase cl query exact))"

section \<open>The bootstrap script\<close>

text \<open>
  The script's observable behaviour is the sequence of calls it makes into the external
  services, ending with how the process leaves the dispatch. \<open>rejects\<close> says which external
  calls reject their promise.
\<close>

datatype effect =
    View
  | Unregister
  | Delete "string option"
  | LoadCommands "bool option"
  | Register
  | LoadEvents
  | DatabaseInitiate
  | Login
  | LogError string
  | CallInherited string
  | Exit int
  | Uncaught js_error

datatype action = ActView | ActUnregister | ActDelete | ActRegister

definition argv_at :: "string list \<Rightarrow> nat \<Rightarrow> string option" where
  "argv_at argv i = (if i < length argv then Some (argv ! i) else None)"

text \<open>A property key made from a value that may be \<open>undefined\<close>.\<close>

fun property_key :: "string option \<Rightarrow> string" where
  "property_key None = ''undefined''"
| "property_key (Some s) = s"

definition commandActions :: "(string \<times> action) list" where
  "commandActions =
     [(''view'', ActView), (''unregister'', ActUnregister),
      (''delete'', ActDelete), (''register'', ActRegister)]"

text \<open>Running a sequence of awaited external calls: the first rejection is thrown.\<close>

fun await_all :: "(effect \<Rightarrow> bool) \<Rightarrow> effect list \<Rightarrow> effect list \<times> bool" where
  "await_all rejects [] = ([], True)"
| "await_all rejects (c # cs) =
     (if rejects c then ([c], False)
      else (case await_all rejects cs of (tr, ok) \<Rightarrow> (c # tr, ok)))"

fun action_calls :: "string list \<Rightarrow> action \<Rightarrow> effect list" where
  "action_calls argv ActView = [View]"
| "action_calls argv ActUnregister = [Unregister]"
| "action_calls argv ActDelete = [Delete (argv_at argv 4)]"
| "action_calls argv ActRegister = [LoadCommands (Some True), Register]"

text \<open>
  Calling a member of \<open>Object.prototype\<close> on the table with no argument: the two
  \<open>__define*__\<close> members throw a TypeError (no callable accessor is given), \<open>__proto__\<close>
  is not a function, and the rest return normally.
\<close>

definition inherited_call_throws :: "string \<Rightarrow> bool" where
  "inherited_call_throws key =
     (key \<in> set [''__defineGetter__'', ''__defineSetter__'', ''__proto__''])"

text \<open>Each step of \<open>initiate\<close> catches its rejection and logs it.\<close>

fun caught :: "(effect \<Rightarrow> bool) \<Rightarrow> effect \<Rightarrow> string \<Rightarrow> effect list" where
  "caught rejects c msg = (if rejects c then [c, LogError msg] else [c])"

definition initiate :: "(effect \<Rightarrow> bool) \<Rightarrow> effect list" where
  "initiate rejects =
     caught rejects (LoadCommands None) ''Error while loading commands'' @
     caught rejects LoadEvents ''Error while loading events'' @
     caught rejects DatabaseInitiate ''Error while initializing database'' @
     caught rejects Login ''Error while logging in bot''"

definition dispatch :: "(effect \<Rightarrow> bool) \<Rightarrow> string list \<Rightarrow> effect list" where
  "dispatch rejects argv =
     (let entry = get_property commandActions (property_key (argv_at argv 3)) in
      if argv_at argv 2 = Some ''commands'' \<and> truthy entry then
        (case entry of
           Own a \<Rightarrow>
             (case await_all rejects (action_calls argv a) of
                (tr, ok) \<Rightarrow> tr @ (if ok then [Exit 0] else [Uncaught (Rejection ''action'')]))
         | Inherited key \<Rightarrow>
             (if inherited_call_throws key then [Uncaught TypeError]
              else [CallInherited key, Exit 0])
         | Undefined \<Rightarrow> [])
      else initiate rejects)"

section \<open>Sample environments\<close>

definition sample_head :: "string \<Rightarrow> js_error + axios_response" where
  "sample_head url =
     (if url = ''https://cdn.example/a.png''
        then Inr \<lparr>status = 200, headers = [''content-type'' \<mapsto> HStr ''image/png'']\<rparr>
      else if url = ''https://cdn.example/none''
        then Inr \<lparr>status = 200, headers = Map.empty\<rparr>
      else Inl (Rejection ''ECONNREFUSED''))"

text \<open>What a call of \<open>shuffleArray\<close> returned, and an array of the store after it.\<close>

definition returned_ref :: "js_error + (ref \<times> 'a heap \<times> nat) \<Rightarrow> ref option" where
  "returned_ref res = (case res of Inl e \<Rightarrow> None | Inr (r, h, k) \<Rightarrow> Some r)"

definition array_after :: "js_error + (ref \<times> 'a heap \<times> nat) \<Rightarrow> ref \<Rightarrow> 'a option list option" where
  "array_after res a = (case res of Inl e \<Rightarrow> None | Inr (r, h, k) \<Rightarrow> h a)"

definition sample_heap :: "nat heap" where
  "sample_heap = [0 \<mapsto> [Some 1, Some 2], 1 \<mapsto> [Some 7, None, Some 8]]"

text \<open>\<open>toLowerCase\<close> on strings of ASCII characters, for the examples.\<close>

definition ascii_lower_char :: "char \<Rightarrow> char" where
  "ascii_lower_char c =
     (if code_point CHR ''A'' \<le> code_point c \<and> code_point c \<le> code_point CHR ''Z''
      then char_of (code_point c + 32) else c)"

definition ascii_toLowerCase :: "string \<Rightarrow> string" where
  "ascii_toLowerCase s = map ascii_lower_char s"

definition sample_client :: client where
  "sample_client =
     \<lparr>users_fetch = (\<lambda>id. if id = Some ''123456789012345678''
                             then Inr \<lparr>user_id = ''123456789012345678'', username = Some ''Carol''\<rparr>
                             else Inl (Rejection ''Unknown User'')),
      users_cache = [\<lparr>user_id = ''111111111111111111'', username = Some ''Alice''\<rparr>,
                     \<lparr>user_id = ''222222222222222222'', username = Some ''Bob''\<rparr>]\<rparr>"

text \<open>A client whose cache holds a partial user.\<close>

definition partial_client :: client where
  "partial_client =
     \<lparr>users_fetch = (\<lambda>id. Inl (Rejection ''Unknown User'')),
      users_cache = [\<lparr>user_id = ''333333333333333333'', username = None\<rparr>]\<rparr>"

definition half_rng :: rng where
  "half_rng i = 1 / 2"

definition low_rng :: rng where
  "low_rng i = 0"

definition high_rng :: rng where
  "high_rng i = 1 - 1 / 2 ^ 52"

definition alternating_rng :: rng where
  "alternating_rng i = (if even i then 1 / 2 else 0)"

section \<open>Results: rounding\<close>

lemma ilog2_bounds:
  assumes "0 < x"
  shows "2 powi (ilog2 x) \<le> x \<and> x < 2 powi (ilog2 x + 1)"
proof (cases "1 \<le> x")
  case True
  define n where "n = \<lfloor>x\<rfloor>"
  have n: "0 < n" using True by (simp add: n_def)
  from bitlen_bounds [OF n] have b: "2 ^ nat (bitlen n - 1) \<le> n" "n < 2 ^ nat (bitlen n)"
    by simp_all
  have e: "ilog2 x = bitlen n - 1" using True by (simp add: ilog2_def n_def)
  have pos: "1 \<le> bitlen n" using n by (simp add: bitlen_alt_def)
  have "real_of_int (2 ^ nat (bitlen n - 1)) \<le> real_of_int n" using b(1) by linarith
  also have "\<dots> \<le> x" by (simp add: n_def)
  finally have lo: "2 powi (ilog2 x) \<le> x" using pos by (simp add: e power_int_def)
  have "n + 1 \<le> 2 ^ nat (bitlen n)" using b(2) by simp
  then have "real_of_int (n + 1) \<le> real_of_int (2 ^ nat (bitlen n))" by linarith
  moreover have "x < real_of_int (n + 1)" unfolding n_def by linarith
  ultimately have "x < 2 ^ nat (bitlen n)" by simp
  then have hi: "x < 2 powi (ilog2 x + 1)" using pos by (simp add: e power_int_def)
  from lo hi show ?thesis ..
next
  case False
  define k where "k = \<lceil>1 / x\<rceil> - 1"
  have y: "1 < 1 / x" using False assms by simp
  then have k: "0 < k" unfolding k_def by linarith
  from bitlen_bounds [OF k] have b: "2 ^ nat (bitlen k - 1) \<le> k" "k < 2 ^ nat (bitlen k)"
    by simp_all
  have pos: "1 \<le> bitlen k" using k by (simp add: bitlen_alt_def)
  have e: "ilog2 x = - bitlen k" using False by (simp add: ilog2_def k_def)
  have "k + 1 \<le> 2 ^ nat (bitlen k)" using b(2) by simp
  then have "real_of_int (k + 1) \<le> real_of_int (2 ^ nat (bitlen k))" by linarith
  moreover have "1 / x \<le> real_of_int (k + 1)" unfolding k_def by simp
  ultimately have "1 / x \<le> 2 ^ nat (bitlen k)" by simp
  then have "1 / 2 ^ nat (bitlen k) \<le> x" using assms
    by (simp add: field_simps)
  then have lo: "2 powi (ilog2 x) \<le> x" using pos
    by (simp add: e power_int_def power_one_over inverse_eq_divide)
  have "(2::real) ^ nat (bitlen k - 1) \<le> real_of_int k"
  proof -
    have "real_of_int (2 ^ nat (bitlen k - 1)) \<le> real_of_int k"
      using b(1) by (simp only: of_int_le_iff)
    then show ?thesis by simp
  qed
  moreover have "real_of_int k < 1 / x" unfolding k_def by linarith
  ultimately have "2 ^ nat (bitlen k - 1) < 1 / x" by linarith
  then have "x < 1 / 2 ^ nat (bitlen k - 1)" using assms
    by (simp add: field_simps)
  moreover have "(2::real) powi (ilog2 x + 1) = 1 / 2 ^ nat (bitlen k - 1)"
  proof -
    have "(2::real) powi (ilog2 x + 1) = 2 powi (- (bitlen k - 1))" by (simp add: e)
    also have "\<dots> = inverse (2 powi (bitlen k - 1))" by (rule power_int_minus)
    also have "\<dots> = 1 / 2 ^ nat (bitlen k - 1)"
      using pos by (simp add: power_int_def inverse_eq_divide)
    finally show ?thesis .
  qed
  ultimately have hi: "x < 2 powi (ilog2 x + 1)" by simp
  from lo hi show ?thesis ..
qed

lemma ilog2_unique:
  assumes "2 powi e \<le> x" and "x < 2 powi (e + 1)"
  shows "ilog2 x = e"
proof -
  have "0 < (2::real) powi e" by simp
  with assms have x: "0 < x" by linarith
  note b = ilog2_bounds [OF x]
  have "(2::real) powi e < 2 powi (ilog2 x + 1)" using assms b by linarith
  then have 1: "e < ilog2 x + 1"
    by (metis less_le_not_le not_le one_le_numeral power_int_increasing)
  have "(2::real) powi (ilog2 x) < 2 powi (e + 1)" using assms b by linarith
  then have 2: "ilog2 x < e + 1"
    by (metis less_le_not_le not_le one_le_numeral power_int_increasing)
  from 1 2 show ?thesis by simp
qed

lemma round_half_even_bounds: "\<lfloor>y\<rfloor> \<le> round_half_even y \<and> round_half_even y \<le> \<lfloor>y\<rfloor> + 1"
  by (simp add: round_half_even_def Let_def)

lemma round_half_even_of_int [simp]: "round_half_even (of_int k) = k"
  by (simp add: round_half_even_def Let_def)

lemma round_half_even_mono:
  assumes "y \<le> z"
  shows "round_half_even y \<le> round_half_even z"
proof (cases "\<lfloor>y\<rfloor> = \<lfloor>z\<rfloor>")
  case True
  with assms show ?thesis
    by (auto simp: round_half_even_def Let_def)
next
  case False
  with assms have "\<lfloor>y\<rfloor> < \<lfloor>z\<rfloor>" by (simp add: floor_mono order.strict_iff_order)
  with round_half_even_bounds [of y] round_half_even_bounds [of z] show ?thesis by linarith
qed

lemma fl_0 [simp]: "fl 0 = 0"
  by (simp add: fl_def)

lemma fl_binade:
  assumes "0 < x"
  shows "2 powi (ilog2 x) \<le> fl x \<and> fl x \<le> 2 powi (ilog2 x + 1)"
proof -
  define e where "e = ilog2 x"
  define u :: real where "u = 2 powi (e - 52)"
  have u: "0 < u" by (simp add: u_def)
  have f: "fl x = of_int (round_half_even (x / u)) * u"
    using assms by (simp add: fl_def u_def e_def Let_def)
  have p52: "2 powi e = 2 ^ 52 * u" and p53: "2 powi (e + 1) = 2 ^ 53 * u"
    by (simp_all add: u_def power_int_diff power_int_add)
  from ilog2_bounds [OF assms] have "2 ^ 52 * u \<le> x" "x < 2 ^ 53 * u"
    by (simp_all add: e_def [symmetric] p52 p53)
  with u have q: "2 ^ 52 \<le> x / u" "x / u \<le> 2 ^ 53"
    by (simp_all add: field_simps)
  from round_half_even_mono [OF q(1)] round_half_even_mono [OF q(2)]
  have "round_half_even (of_int (2 ^ 52)) \<le> round_half_even (x / u)"
    "round_half_even (x / u) \<le> round_half_even (of_int (2 ^ 53))" by simp_all
  then have "2 ^ 52 \<le> round_half_even (x / u)" "round_half_even (x / u) \<le> 2 ^ 53"
    by (simp_all only: round_half_even_of_int)
  then have "real_of_int (2 ^ 52) \<le> of_int (round_half_even (x / u))"
    "real_of_int (round_half_even (x / u)) \<le> of_int (2 ^ 53)"
    by (simp_all only: of_int_le_iff)
  then have "(2 ^ 52 :: real) \<le> of_int (round_half_even (x / u))"
    "of_int (round_half_even (x / u)) \<le> (2 ^ 53 :: real)"
    by simp_all
  with u have "2 ^ 52 * u \<le> of_int (round_half_even (x / u)) * u"
    "of_int (round_half_even (x / u)) * u \<le> 2 ^ 53 * u"
    by simp_all
  then show ?thesis by (simp add: f e_def [symmetric] p52 p53)
qed

lemma fl_mono:
  assumes "0 \<le> x" and "x \<le> y"
  shows "fl x \<le> fl y"
proof (cases "x = 0")
  case True
  show ?thesis
  proof (cases "y = 0")
    case True
    with \<open>x = 0\<close> show ?thesis by simp
  next
    case False
    with assms have "0 < y" by simp
    from fl_binade [OF this] have "0 < fl y"
      by (meson less_le_trans zero_less_numeral zero_less_power_int)
    with \<open>x = 0\<close> show ?thesis by simp
  qed
next
  case False
  with assms have x: "0 < x" and y: "0 < y" by simp_all
  have le: "ilog2 x \<le> ilog2 y"
  proof (rule ccontr)
    assume "\<not> ilog2 x \<le> ilog2 y"
    then have "ilog2 y + 1 \<le> ilog2 x" by simp
    then have "(2::real) powi (ilog2 y + 1) \<le> 2 powi (ilog2 x)"
      by (intro power_int_increasing) simp_all
    with ilog2_bounds [OF x] ilog2_bounds [OF y] assms show False by linarith
  qed
  show ?thesis
  proof (cases "ilog2 x = ilog2 y")
    case True
    define u :: real where "u = 2 powi (ilog2 y - 52)"
    have u: "0 < u" by (simp add: u_def)
    have "x / u \<le> y / u" using assms u by (simp add: divide_right_mono)
    from round_half_even_mono [OF this]
    have "real_of_int (round_half_even (x / u)) * u \<le> real_of_int (round_half_even (y / u)) * u"
      using u by simp
    then show ?thesis using x y True by (simp add: fl_def u_def Let_def)
  next
    case False
    with le have "ilog2 x + 1 \<le> ilog2 y" by simp
    then have "(2::real) powi (ilog2 x + 1) \<le> 2 powi (ilog2 y)"
      by (intro power_int_increasing) simp_all
    with fl_binade [OF x] fl_binade [OF y] show ?thesis by linarith
  qed
qed

lemma double_below_one:
  assumes "0 \<le> r" and "r < 1" and "fl r = r"
  shows "r \<le> 1 - 1 / 2 ^ 53"
proof (cases "r < 1 / 2")
  case True
  then show ?thesis by simp
next
  case False
  then have e: "ilog2 r = - 1"
    using assms by (intro ilog2_unique) simp_all
  have r: "0 < r" using False by simp
  define k where "k = round_half_even (r * 2 ^ 53)"
  have "fl r = of_int k / 2 ^ 53"
    using r by (simp add: fl_def e k_def power_int_minus field_simps Let_def)
  with assms have eq: "r = of_int k / 2 ^ 53" by simp
  with assms have "real_of_int k < of_int (2 ^ 53)" by (simp add: field_simps)
  then have "k < 2 ^ 53" by (simp only: of_int_less_iff)
  then have "k \<le> 2 ^ 53 - 1" by simp
  then have "real_of_int k \<le> of_int (2 ^ 53 - 1)" by (simp only: of_int_le_iff)
  then have "real_of_int k \<le> 2 ^ 53 - 1" by simp
  then show ?thesis by (simp add: eq field_simps)
qed


section \<open>Results: PermissionUtils\<close>

lemma permission_keys_distinct: "distinct (map fst permissionLocalizations)"
  by (simp add: permissionLocalizations_def)

lemma getPermissionName_table_entry:
  assumes "(permission, name) \<in> set permissionLocalizations"
  shows "getPermissionName permission = Own name"
proof -
  from assms have "map_of permissionLocalizations permission = Some name"
    using permission_keys_distinct by (rule_tac map_of_is_SomeI)
  then show ?thesis
    by (simp add: getPermissionName_def get_property_def)
qed

text \<open>
  C2 at the permission name \<open>UseExternalApps\<close>: the table has no entry for it, so the
  lookup yields \<open>undefined\<close> and not a localized string.
\<close>

theorem getPermissionName_unknown_permission:
  "getPermissionName ''UseExternalApps'' = Undefined"
  by (simp add: getPermissionName_def get_property_def permissionLocalizations_def
      object_prototype_keys_def)

section \<open>Results: urlIsImage\<close>

text \<open>
  C3: \<open>urlIsImage\<close> always fulfils with a boolean. It gives \<open>false\<close> when the request
  rejects and when the response has no content-type header or a \<open>null\<close> one; it gives
  \<open>true\<close> exactly when the request succeeds and the text of its content-type header
  starts with \<open>image/\<close>.
\<close>

theorem urlIsImage_never_throws:
  "(\<exists>b. urlIsImage head url = Inr b) \<and>
   (\<forall>e. head url = Inl e \<longrightarrow> urlIsImage head url = Inr False) \<and>
   (\<forall>response. head url = Inr response \<and>
        (headers response ''content-type'' = None \<or>
         headers response ''content-type'' = Some HNull) \<longrightarrow>
        urlIsImage head url = Inr False) \<and>
   (urlIsImage head url = Inr True \<longleftrightarrow>
      (\<exists>response v s. head url = Inr response \<and>
         headers response ''content-type'' = Some v \<and>
         header_toString (Some v) = Inr s \<and> startsWith s ''image/''))"
proof (intro conjI allI impI)
  show "\<exists>b. urlIsImage head url = Inr b"
    by (cases "urlIsImage_try head url") (auto simp: urlIsImage_def)
next
  fix e assume "head url = Inl e"
  then show "urlIsImage head url = Inr False"
    by (simp add: urlIsImage_def urlIsImage_try_def)
next
  fix response
  assume "head url = Inr response \<and>
    (headers response ''content-type'' = None \<or> headers response ''content-type'' = Some HNull)"
  then show "urlIsImage head url = Inr False"
    by (auto simp: urlIsImage_def urlIsImage_try_def)
next
  show "urlIsImage head url = Inr True \<longleftrightarrow>
      (\<exists>response v s. head url = Inr response \<and>
         headers response ''content-type'' = Some v \<and>
         header_toString (Some v) = Inr s \<and> startsWith s ''image/'')"
  proof (cases "head url")
    case (Inl e)
    then show ?thesis by (simp add: urlIsImage_def urlIsImage_try_def)
  next
    case (Inr response)
    show ?thesis
    proof (cases "headers response ''content-type''")
      case None
      with Inr show ?thesis by (simp add: urlIsImage_def urlIsImage_try_def)
    next
      case (Some v)
      with Inr show ?thesis
        by (cases "header_toString (Some v)") (simp_all add: urlIsImage_def urlIsImage_try_def)
    qed
  qed
qed

theorem urlIsImage_never_throws_witness:
  "sample_head ''https://down.example/'' = Inl (Rejection ''ECONNREFUSED'') \<and>
   urlIsImage sample_head ''https://down.example/'' = Inr False \<and>
   sample_head ''https://cdn.example/none'' = Inr \<lparr>status = 200, headers = Map.empty\<rparr> \<and>
   urlIsImage sample_head ''https://cdn.example/none'' = Inr False \<and>
   urlIsImage sample_head ''https://cdn.example/a.png'' = Inr True"
proof -
  have r: "sample_head ''https://down.example/'' = Inl (Rejection ''ECONNREFUSED'')"
    by (simp add: sample_head_def)
  have n: "sample_head ''https://cdn.example/none'' = Inr \<lparr>status = 200, headers = Map.empty\<rparr>"
    by (simp add: sample_head_def)
  have i: "\<exists>response v s. sample_head ''https://cdn.example/a.png'' = Inr response \<and>
         headers response ''content-type'' = Some v \<and>
         header_toString (Some v) = Inr s \<and> startsWith s ''image/''"
    by (simp add: sample_head_def startsWith_def)
  from urlIsImage_never_throws [of sample_head "''https://down.example/''"] r
  have a: "urlIsImage sample_head ''https://down.example/'' = Inr False" by blast
  from urlIsImage_never_throws [of sample_head "''https://cdn.example/none''"] n
  have b: "urlIsImage sample_head ''https://cdn.example/none'' = Inr False" by simp
  from urlIsImage_never_throws [of sample_head "''https://cdn.example/a.png''"] i
  have c: "urlIsImage sample_head ''https://cdn.example/a.png'' = Inr True" by blast
  from r a n b c show ?thesis by blast
qed

section \<open>Results: the bootstrap dispatch\<close>

lemma dispatch_own_action:
  assumes "argv_at argv 2 = Some ''commands''" and "argv_at argv 3 = Some key"
    and "map_of commandActions key = Some a" and "\<forall>c \<in> set (action_calls argv a). \<not> rejects c"
  shows "dispatch rejects argv = action_calls argv a @ [Exit 0]"
proof -
  have "await_all rejects cs = (cs, True)" if "\<forall>c \<in> set cs. \<not> rejects c" for cs
    using that by (induction cs) auto
  with assms show ?thesis
    by (simp add: dispatch_def get_property_def)
qed

lemma dispatch_initiate:
  assumes "argv_at argv 2 \<noteq> Some ''commands'' \<or>
      (property_key (argv_at argv 3) \<notin> fst ` set commandActions \<and>
       property_key (argv_at argv 3) \<notin> set object_prototype_keys)"
  shows "dispatch rejects argv = initiate rejects"
proof -
  have "map_of commandActions k = None" if "k \<notin> fst ` set commandActions" for k
    using that by (simp add: map_of_eq_None_iff)
  with assms show ?thesis
    by (auto simp: dispatch_def get_property_def Let_def)
qed

text \<open>
  C7 at the arguments \<open>commands toString\<close>: \<open>toString\<close> is none of the four actions, yet
  the table lookup finds the member inherited from \<open>Object.prototype\<close>, the script calls
  it and exits; the bot is not initiated.
\<close>

theorem dispatch_inherited_key:
  "dispatch rejects [''node'', ''index.js'', ''commands'', ''toString''] =
     [CallInherited ''toString'', Exit 0] \<and>
   dispatch rejects [''node'', ''index.js'', ''commands'', ''toString''] \<noteq> initiate rejects"
  by (simp add: dispatch_def get_property_def commandActions_def argv_at_def
      object_prototype_keys_def inherited_call_throws_def initiate_def)

section \<open>Results: RandomUtils\<close>

lemma half_rng_valid: "valid_rng half_rng"
proof -
  have "is_draw (1 / 2)" by code_simp
  then show ?thesis by (simp add: valid_rng_def half_rng_def)
qed

lemma draw_times_bounds:
  assumes "is_draw r" and "0 \<le> n"
  shows "0 \<le> times_d r n \<and> times_d r n \<le> fl ((1 - 1 / 2 ^ 53) * n)"
proof -
  from assms(1) have r: "0 \<le> r" "r \<le> 1 - 1 / 2 ^ 53"
    using double_below_one by (simp_all add: is_draw_def)
  have "0 \<le> r * n" using r assms(2) by simp
  moreover have "r * n \<le> (1 - 1 / 2 ^ 53) * n" using r assms(2) by (intro mult_right_mono)
  ultimately have "fl 0 \<le> fl (r * n)" "fl (r * n) \<le> fl ((1 - 1 / 2 ^ 53) * n)"
    by (simp_all add: fl_mono del: fl_0)
  then show ?thesis by (simp add: times_d_def)
qed


lemma fl_top_color: "fl ((1 - 1 / 2 ^ 53) * 16777215) = 16777215 - 1 / 2 ^ 29"
  by code_simp


lemma color_value:
  assumes "is_draw r"
  shows "0 \<le> \<lfloor>times_d r 16777215\<rfloor> \<and> \<lfloor>times_d r 16777215\<rfloor> < 16777215"
proof -
  have "0 \<le> times_d r 16777215 \<and> times_d r 16777215 \<le> fl ((1 - 1 / 2 ^ 53) * 16777215)"
    by (rule draw_times_bounds [OF assms]) simp
  then have "0 \<le> times_d r 16777215 \<and> times_d r 16777215 \<le> 16777215 - 1 / 2 ^ 29"
    by (simp only: fl_top_color)
  moreover have "(16777215::real) - 1 / 2 ^ 29 < 16777215" by simp
  ultimately have "0 \<le> times_d r 16777215" "times_d r 16777215 < 16777215" by linarith+
  then show ?thesis by (simp add: floor_less_iff)
qed









text \<open>
  The sort only moves elements: every function of the merge sort returns the elements it
  was given, whatever the comparator answers.
\<close>

lemma take_drop_mset: "mset (take n xs) + mset (drop n xs) = mset xs"
  by (metis append_take_drop_id mset_append)

lemma CountAndMakeRun_mset:
  "CountAndMakeRun cmp k xs = (currentRun, rest, k') \<Longrightarrow> mset currentRun + mset rest = mset xs"
  by (cases "(cmp, k, xs)" rule: CountAndMakeRun.cases)
     (auto split: prod.splits if_splits simp: take_drop_mset)

lemma CountAndMakeRun_nonempty:
  "xs \<noteq> [] \<Longrightarrow> CountAndMakeRun cmp k xs = (currentRun, rest, k') \<Longrightarrow> currentRun \<noteq> []"
  by (cases "(cmp, k, xs)" rule: CountAndMakeRun.cases)
     (auto split: prod.splits if_splits)

lemma CountAndMakeRun_length:
  "CountAndMakeRun cmp k xs = (currentRun, rest, k') \<Longrightarrow> length currentRun + length rest = length xs"
  by (cases "(cmp, k, xs)" rule: CountAndMakeRun.cases)
     (auto split: prod.splits if_splits)

lemma BinaryInsertionSort_mset:
  "BinaryInsertionSort cmp k currentRun pending = (ys, k') \<Longrightarrow> mset ys = mset currentRun + mset pending"
proof (induction pending arbitrary: k currentRun)
  case Nil
  then show ?case by simp
next
  case (Cons pivot pending)
  obtain left k1 where b: "binary_search cmp k pivot currentRun 0 (length currentRun) = (left, k1)"
    by (cases "binary_search cmp k pivot currentRun 0 (length currentRun)")
  with Cons.prems
  have "BinaryInsertionSort cmp k1 (take left currentRun @ pivot # drop left currentRun) pending = (ys, k')"
    by simp
  from Cons.IH [OF this] show ?case by (simp add: take_drop_mset)
qed

lemma BinaryInsertionSort_nonempty:
  "BinaryInsertionSort cmp k currentRun pending = (ys, k') \<Longrightarrow> currentRun \<noteq> [] \<Longrightarrow> ys \<noteq> []"
  using BinaryInsertionSort_mset [of cmp k currentRun pending ys k'] by auto

lemma hd_tl_mset: "xs \<noteq> [] \<Longrightarrow> add_mset (hd xs) (mset (tl xs)) = mset xs"
  by (cases xs) auto

lemma gallop_step_mset:
  assumes "A1 \<noteq> []"
  shows "mset ((out1 @ [b] @ take n B) @ [hd A1]) + mset (tl A1) + mset (drop n B) =
         mset out1 + mset A1 + mset (b # B)"
proof -
  from assms obtain x xs where "A1 = x # xs" by (cases A1) auto
  moreover have "mset B = mset (take n B) + mset (drop n B)" by (simp add: take_drop_mset)
  ultimately show ?thesis by simp
qed

lemma MergeLow_loops_mset:
  "mset (fst (MergeLow_straight cmp k minGallop nofWinsA nofWinsB out A B)) = mset out + mset A + mset B"
  "mset (fst (MergeLow_gallop cmp k minGallop out A B)) = mset out + mset A + mset B"
proof (induction cmp k minGallop nofWinsA nofWinsB out A B and cmp k minGallop out A B
       rule: MergeLow_straight_MergeLow_gallop.induct)
  case (1 cmp k minGallop nofWinsA nofWinsB out a A b B)
  then show ?case by (auto split: prod.splits)
next
  case "2_1"
  then show ?case by simp
next
  case "2_2"
  then show ?case by simp
next
  case (3 cmp k minGallop0 out a A b B)
  obtain nofWinsA k1 where gr: "GallopRight cmp k (a # A) b 0 = (nofWinsA, k1)"
    by (cases "GallopRight cmp k (a # A) b 0")
  let ?minGallop = "max 1 (minGallop0 - 1)"
  let ?out1 = "out @ take nofWinsA (a # A)"
  let ?A1 = "drop nofWinsA (a # A)"
  have m1: "mset ?out1 + mset ?A1 = mset out + mset (a # A)"
    using take_drop_mset [of nofWinsA "a # A"] by (simp only: mset_append add.assoc)
  show ?case
  proof (cases "(0 < nofWinsA \<and> length ?A1 = 1) \<or> (0 < nofWinsA \<and> ?A1 = []) \<or> B = []")
    case True
    then have "mset (fst (MergeLow_gallop cmp k minGallop0 out (a # A) (b # B))) =
               mset ?out1 + mset ?A1 + mset (b # B)"
      by (subst MergeLow_gallop.simps(1)) (auto simp: Let_def gr simp del: MergeLow_gallop.simps)
    with m1 show ?thesis by (simp only:)
  next
    case False
    then have c1: "\<not> (0 < nofWinsA \<and> length ?A1 = 1)" and c2: "\<not> (0 < nofWinsA \<and> ?A1 = [])"
      and c3: "B \<noteq> []" by blast+
    from c2 have A1: "?A1 \<noteq> []" by (cases nofWinsA) auto
    obtain nofWinsB k2 where gl: "GallopLeft cmp k1 B (hd ?A1) 0 = (nofWinsB, k2)"
      by (cases "GallopLeft cmp k1 B (hd ?A1) 0")
    let ?out2 = "?out1 @ [b] @ take nofWinsB B"
    let ?B1 = "drop nofWinsB B"
    have m2: "mset (?out2 @ [hd ?A1]) + mset (tl ?A1) + mset ?B1 = mset ?out1 + mset ?A1 + mset (b # B)"
      by (rule gallop_step_mset [OF A1])
    show ?thesis
    proof (cases "(0 < nofWinsB \<and> ?B1 = []) \<or> length (tl ?A1) = 1")
      case True
      with c1 c2 c3
      have "mset (fst (MergeLow_gallop cmp k minGallop0 out (a # A) (b # B))) =
            mset (?out2 @ [hd ?A1]) + mset (tl ?A1) + mset ?B1"
        using hd_tl_mset [OF A1]
        by (subst MergeLow_gallop.simps(1))
           (auto simp: Let_def gr gl simp del: MergeLow_gallop.simps)
      with m1 m2 show ?thesis by (simp only:)
    next
      case False
      then have c4: "\<not> (0 < nofWinsB \<and> ?B1 = [])" and c5: "length (tl ?A1) \<noteq> 1" by blast+
      show ?thesis
      proof (cases "kMinGallopWins \<le> nofWinsA \<or> kMinGallopWins \<le> nofWinsB")
        case True
        with c1 c2 c3 c4 c5
        have "MergeLow_gallop cmp k minGallop0 out (a # A) (b # B) =
              MergeLow_gallop cmp k2 ?minGallop (?out2 @ [hd ?A1]) (tl ?A1) ?B1"
          by (subst MergeLow_gallop.simps(1))
             (auto simp: Let_def gr gl simp del: MergeLow_gallop.simps)
        with "3.IH"(1) [OF refl gr [symmetric] refl refl c1 c2 c3 gl [symmetric] refl refl c4 c5 True]
          m1 m2
        show ?thesis by (simp only:)
      next
        case False
        with c1 c2 c3 c4 c5
        have "MergeLow_gallop cmp k minGallop0 out (a # A) (b # B) =
              MergeLow_straight cmp k2 (?minGallop + 1) 0 0 (?out2 @ [hd ?A1]) (tl ?A1) ?B1"
          by (subst MergeLow_gallop.simps(1))
             (auto simp: Let_def gr gl simp del: MergeLow_gallop.simps MergeLow_straight.simps)
        with "3.IH"(2) [OF refl gr [symmetric] refl refl c1 c2 c3 gl [symmetric] refl refl c4 c5 False]
          m1 m2
        show ?thesis by (simp only:)
      qed
    qed
  qed
next
  case "4_1"
  then show ?case by simp
next
  case "4_2"
  then show ?case by simp
qed

lemma butlast_last_mset: "xs \<noteq> [] \<Longrightarrow> add_mset (last xs) (mset (butlast xs)) = mset xs"
  by (metis append_butlast_last_id mset.simps(2) mset_rev rev.simps(2) rev_rev_ident rev_append union_mset_add_mset_right add.right_neutral mset_append mset.simps(1))

lemma gallop_high_step_mset:
  assumes "B \<noteq> []"
  shows "mset (take n (butlast B)) + mset (drop n (butlast B) @ last B # out1) = mset B + mset out1"
proof -
  have "mset (butlast B) = mset (take n (butlast B)) + mset (drop n (butlast B))"
    by (simp add: take_drop_mset)
  with butlast_last_mset [OF assms, symmetric] show ?thesis by simp
qed

lemma MergeHigh_loops_mset:
  "mset (fst (MergeHigh_straight cmp k minGallop nofWinsA nofWinsB A B out)) = mset A + mset B + mset out"
  "mset (fst (MergeHigh_gallop cmp k minGallop A B out)) = mset A + mset B + mset out"
proof (induction cmp k minGallop nofWinsA nofWinsB A B out and cmp k minGallop A B out
       rule: MergeHigh_straight_MergeHigh_gallop.induct)
  case (1 cmp k minGallop nofWinsA nofWinsB A B out)
  show ?case
  proof (cases "A = [] \<or> B = []")
    case True
    then show ?thesis by (subst MergeHigh_straight.simps) auto
  next
    case False
    then have A: "A \<noteq> []" and B: "B \<noteq> []" by blast+
    obtain order k' where c: "cmp k (last B) (last A) = (order, k')"
      by (cases "cmp k (last B) (last A)")
    note ih = "1.IH" [OF False c [symmetric]]
    show ?thesis
      using ih butlast_last_mset [OF A] butlast_last_mset [OF B] False
      by (subst MergeHigh_straight.simps) (auto simp: c)
  qed
next
  case (2 cmp k minGallop0 A B out)
  let ?minGallop = "max 1 (minGallop0 - 1)"
  note unfold = MergeHigh_gallop.simps [of cmp k minGallop0 A B out]
  show ?case
  proof (cases "A = [] \<or> B = []")
    case True
    then show ?thesis by (subst MergeHigh_gallop.simps) (auto simp: Let_def)
  next
    case g: False
    then have A: "A \<noteq> []" and B: "B \<noteq> []" by blast+
    obtain kA k1 where gr: "GallopRight cmp k A (last B) (length A - 1) = (kA, k1)"
      by (cases "GallopRight cmp k A (last B) (length A - 1)")
    let ?nofWinsA = "length A - kA"
    let ?out1 = "drop kA A @ out"
    let ?A1 = "take kA A"
    have "mset A = mset (take kA A) + mset (drop kA A)" by (simp add: take_drop_mset)
    then have m1: "mset ?A1 + mset B + mset ?out1 = mset A + mset B + mset out" by simp
    show ?thesis
    proof (cases "0 < ?nofWinsA \<and> ?A1 = []")
      case True
      have "MergeHigh_gallop cmp k minGallop0 A B out = (B @ ?out1, ?minGallop, k1)"
        by (simp only: simp_thms unfold Let_def g if_False gr prod.case True if_True)
      with m1 True show ?thesis by simp
    next
      case c1: False
      have A1: "?A1 \<noteq> []"
      proof (cases "kA < length A")
        case True
        with c1 show ?thesis by simp
      next
        case False
        with A show ?thesis by simp
      qed
      show ?thesis
      proof (cases "length (butlast B) = 1")
        case True
        have "MergeHigh_gallop cmp k minGallop0 A B out =
              (butlast B @ ?A1 @ last B # ?out1, ?minGallop, k1)"
          by (simp only: simp_thms unfold Let_def g if_False gr prod.case c1 True if_True)
        with m1 butlast_last_mset [OF B] show ?thesis by simp
      next
        case c2: False
        obtain kB k2
          where gl: "GallopLeft cmp k1 (butlast B) (last ?A1) (length (butlast B) - 1) = (kB, k2)"
          by (cases "GallopLeft cmp k1 (butlast B) (last ?A1) (length (butlast B) - 1)")
        let ?nofWinsB = "length (butlast B) - kB"
        let ?out2 = "drop kB (butlast B) @ last B # ?out1"
        let ?B1 = "take kB (butlast B)"
        have m2: "mset ?A1 + mset ?B1 + mset ?out2 = mset ?A1 + mset B + mset ?out1"
          using gallop_high_step_mset [OF B, of kB ?out1] by (simp only: add.assoc)
        have m3: "mset (butlast ?A1) + mset ?B1 + mset (last ?A1 # ?out2) =
                  mset ?A1 + mset ?B1 + mset ?out2"
          using butlast_last_mset [OF A1] by simp
        note m = m3 [unfolded m2 m1]
        show ?thesis
        proof (cases "0 < ?nofWinsB \<and> length ?B1 = 1")
          case True
          have "MergeHigh_gallop cmp k minGallop0 A B out = (?B1 @ ?A1 @ ?out2, ?minGallop, k2)"
            by (simp only: simp_thms unfold Let_def g if_False gr prod.case c1 c2 gl True if_True)
          moreover have "mset (?B1 @ ?A1 @ ?out2) = mset ?A1 + mset ?B1 + mset ?out2" by simp
          ultimately show ?thesis by (simp only: fst_conv m2 m1)
        next
          case c3: False
          show ?thesis
          proof (cases "0 < ?nofWinsB \<and> ?B1 = []")
            case True
            have "MergeHigh_gallop cmp k minGallop0 A B out = (?A1 @ ?out2, ?minGallop, k2)"
              by (simp only: simp_thms unfold Let_def g if_False gr prod.case c1 c2 gl c3 True if_True) simp
            moreover from True have "mset (?A1 @ ?out2) = mset ?A1 + mset ?B1 + mset ?out2"
              by simp
            ultimately show ?thesis by (simp only: fst_conv m2 m1)
          next
            case c4: False
            show ?thesis
            proof (cases "butlast ?A1 = []")
              case True
              have "MergeHigh_gallop cmp k minGallop0 A B out =
                    (?B1 @ last ?A1 # ?out2, ?minGallop, k2)"
                by (simp only: simp_thms unfold Let_def g if_False gr prod.case c1 c2 gl c3 c4 True if_True)
              moreover from True
              have "mset (?B1 @ last ?A1 # ?out2) =
                    mset (butlast ?A1) + mset ?B1 + mset (last ?A1 # ?out2)"
                by simp
              ultimately show ?thesis by (simp only: fst_conv m)
            next
              case c5: False
              show ?thesis
              proof (cases "kMinGallopWins \<le> ?nofWinsA \<or> kMinGallopWins \<le> ?nofWinsB")
                case True
                have "MergeHigh_gallop cmp k minGallop0 A B out =
                      MergeHigh_gallop cmp k2 ?minGallop (butlast ?A1) ?B1 (last ?A1 # ?out2)"
                  by (simp only: simp_thms unfold Let_def g if_False gr prod.case c1 c2 gl c3 c4 c5 True if_True)
                with "2.IH"(1) [OF refl g gr [symmetric] refl refl refl c1 c2 gl [symmetric] refl
                        refl refl c3 c4 c5 True]
                show ?thesis by (simp only: m)
              next
                case False
                have "MergeHigh_gallop cmp k minGallop0 A B out =
                      MergeHigh_straight cmp k2 (?minGallop + 1) 0 0 (butlast ?A1) ?B1
                        (last ?A1 # ?out2)"
                  by (simp only: simp_thms unfold Let_def g if_False gr prod.case c1 c2 gl c3 c4 c5 False)
                with "2.IH"(2) [OF refl g gr [symmetric] refl refl refl c1 c2 gl [symmetric] refl
                        refl refl c3 c4 c5 False]
                show ?thesis by (simp only: m)
              qed
            qed
          qed
        qed
      qed
    qed
  qed
qed

lemma MergeLow_mset:
  assumes "B \<noteq> []"
  shows "mset (fst (MergeLow cmp k minGallop A B)) = mset A + mset B"
  using hd_tl_mset [OF assms] MergeLow_loops_mset(1) [of cmp k minGallop 0 0 "[hd B]" A "tl B"]
  by (auto simp: MergeLow_def)

lemma MergeHigh_mset:
  assumes "A \<noteq> []"
  shows "mset (fst (MergeHigh cmp k minGallop A B)) = mset A + mset B"
  using butlast_last_mset [OF assms]
    MergeHigh_loops_mset(1) [of cmp k minGallop 0 0 "butlast A" B "[last A]"]
  by (auto simp: MergeHigh_def)

lemma merge_runs_mset:
  assumes "B \<noteq> []"
  shows "mset (fst (merge_runs cmp k minGallop A B)) = mset A + mset B"
proof -
  obtain kA k1 where gr: "GallopRight cmp k A (hd B) 0 = (kA, k1)"
    by (cases "GallopRight cmp k A (hd B) 0")
  show ?thesis
  proof (cases "length A - kA = 0")
    case True
    with gr show ?thesis by (simp add: merge_runs_def)
  next
    case a: False
    then have A1: "drop kA A \<noteq> []" by simp
    obtain lengthB k2 where gl: "GallopLeft cmp k1 B (last A) (length B - 1) = (lengthB, k2)"
      by (cases "GallopLeft cmp k1 B (last A) (length B - 1)")
    show ?thesis
    proof (cases "lengthB = 0")
      case True
      with gr gl a show ?thesis by (simp add: merge_runs_def)
    next
      case b: False
      with assms have B1: "take lengthB B \<noteq> []" by simp
      let ?merge = "if length A - kA \<le> lengthB
                    then MergeLow cmp k2 minGallop (drop kA A) (take lengthB B)
                    else MergeHigh cmp k2 minGallop (drop kA A) (take lengthB B)"
      have m: "mset (fst ?merge) = mset (drop kA A) + mset (take lengthB B)"
        using MergeLow_mset [OF B1] MergeHigh_mset [OF A1] by simp
      obtain merged minGallop' k3 where r: "?merge = (merged, minGallop', k3)"
        by (cases ?merge)
      with gr gl a b
      have "fst (merge_runs cmp k minGallop A B) = take kA A @ merged @ drop lengthB B"
        by (simp add: merge_runs_def)
      moreover from m r have "mset merged = mset (drop kA A) + mset (take lengthB B)" by simp
      moreover have "mset A = mset (take kA A) + mset (drop kA A)"
        and "mset B = mset (take lengthB B) + mset (drop lengthB B)"
        by (simp_all add: take_drop_mset)
      ultimately show ?thesis by simp
    qed
  qed
qed

lemma concat_merge_at:
  assumes "i + 1 < length runs" and "mset merged = mset (runs ! i) + mset (runs ! (i + 1))"
  shows "mset (concat (take i runs @ merged # drop (i + 2) runs)) = mset (concat runs)"
proof -
  from assms have "runs = take i runs @ runs ! i # runs ! (i + 1) # drop (i + 2) runs"
    by (metis Cons_nth_drop_Suc Suc_eq_plus1 Suc_lessD add_2_eq_Suc' append_take_drop_id)
  then have "mset (concat runs) =
             mset (concat (take i runs)) + mset (runs ! i) + mset (runs ! (i + 1)) +
             mset (concat (drop (i + 2) runs))"
    by (metis (no_types, lifting) add.assoc concat.simps(2) concat_append mset_append)
  with assms(2) show ?thesis by (simp add: ac_simps)
qed

lemma MergeAt_props:
  assumes "i + 1 < length runs" and "[] \<notin> set runs"
    and "MergeAt cmp k minGallop runs i = (runs', minGallop', k')"
  shows "mset (concat runs') = mset (concat runs)" and "length runs' < length runs"
    and "[] \<notin> set runs'"
proof -
  from assms(1,2) have B: "runs ! (i + 1) \<noteq> []" and A: "runs ! i \<noteq> []"
    by (metis nth_mem, metis Suc_eq_plus1 Suc_lessD nth_mem)
  obtain merged mg k1
    where m: "merge_runs cmp k minGallop (runs ! i) (runs ! (i + 1)) = (merged, mg, k1)"
    by (cases "merge_runs cmp k minGallop (runs ! i) (runs ! (i + 1))")
  with assms(3) have r: "runs' = take i runs @ merged # drop (i + 2) runs"
    by (auto simp: MergeAt_def)
  from merge_runs_mset [OF B, of cmp k minGallop "runs ! i"] m
  have mm: "mset merged = mset (runs ! i) + mset (runs ! (i + 1))" by simp
  with concat_merge_at [OF assms(1), of merged] r
  show "mset (concat runs') = mset (concat runs)" by (simp only:)
  from assms(1) r show "length runs' < length runs" by simp
  from mm A have "merged \<noteq> []" by auto
  moreover from assms(2) have "[] \<notin> set (take i runs)" and "[] \<notin> set (drop (i + 2) runs)"
    by (metis in_set_takeD, metis in_set_dropD)
  ultimately show "[] \<notin> set runs'" using r by auto
qed

lemma MergeCollapse_props:
  assumes "[] \<notin> set runs" and "MergeCollapse cmp k minGallop runs = (runs', minGallop', k')"
  shows "mset (concat runs') = mset (concat runs) \<and> [] \<notin> set runs'"
  using assms
proof (induction cmp k minGallop runs rule: MergeCollapse.induct)
  case (1 cmp k minGallop pendingRuns)
  note unfold = MergeCollapse.simps [of cmp k minGallop pendingRuns]
  let ?n = "length pendingRuns - 2"
  show ?case
  proof (cases "1 < length pendingRuns")
    case False
    with "1.prems" show ?thesis by (simp add: unfold)
  next
    case l: True
    show ?thesis
    proof (cases "\<not> RunInvariantEstablished pendingRuns (?n + 1) \<or>
                  \<not> RunInvariantEstablished pendingRuns ?n")
      case c: True
      let ?i = "if length (pendingRuns ! (?n - 1)) < length (pendingRuns ! (?n + 1))
                then ?n - 1 else ?n"
      from l have i: "?i + 1 < length pendingRuns" by auto
      obtain runs1 mg1 k1 where m: "MergeAt cmp k minGallop pendingRuns ?i = (runs1, mg1, k1)"
        by (cases "MergeAt cmp k minGallop pendingRuns ?i")
      note p = MergeAt_props [OF i "1.prems"(1) m]
      from "1.prems"(2) have r: "MergeCollapse cmp k1 mg1 runs1 = (runs', minGallop', k')"
        by (simp only: unfold l if_True Let_def c m prod.case)
      from "1.IH"(1) [OF l refl c m [symmetric] refl p(3) r] p(1)
      show ?thesis by simp
    next
      case c: False
      show ?thesis
      proof (cases "length (pendingRuns ! ?n) \<le> length (pendingRuns ! (?n + 1))")
        case d: True
        from l have i: "?n + 1 < length pendingRuns" by auto
        obtain runs1 mg1 k1 where m: "MergeAt cmp k minGallop pendingRuns ?n = (runs1, mg1, k1)"
          by (cases "MergeAt cmp k minGallop pendingRuns ?n")
        note p = MergeAt_props [OF i "1.prems"(1) m]
        from "1.prems"(2) have r: "MergeCollapse cmp k1 mg1 runs1 = (runs', minGallop', k')"
          by (simp only: unfold l if_True Let_def c if_False d m prod.case)
        from "1.IH"(2) [OF l refl c d m [symmetric] refl p(3) r] p(1)
        show ?thesis by simp
      next
        case d: False
        from "1.prems"(2) have "(pendingRuns, minGallop, k) = (runs', minGallop', k')"
          by (simp only: unfold l if_True Let_def c if_False d)
        with "1.prems"(1) show ?thesis by simp
      qed
    qed
  qed
qed

lemma MergeForceCollapse_props:
  assumes "[] \<notin> set runs" and "MergeForceCollapse cmp k minGallop runs = (runs', minGallop', k')"
  shows "mset (concat runs') = mset (concat runs) \<and> [] \<notin> set runs'"
  using assms
proof (induction cmp k minGallop runs rule: MergeForceCollapse.induct)
  case (1 cmp k minGallop pendingRuns)
  note unfold = MergeForceCollapse.simps [of cmp k minGallop pendingRuns]
  let ?n = "length pendingRuns - 2"
  show ?case
  proof (cases "1 < length pendingRuns")
    case False
    with "1.prems" show ?thesis by (simp add: unfold)
  next
    case l: True
    let ?i = "if 0 < ?n \<and> length (pendingRuns ! (?n - 1)) < length (pendingRuns ! (?n + 1))
              then ?n - 1 else ?n"
    from l have i: "?i + 1 < length pendingRuns" by auto
    obtain runs1 mg1 k1 where m: "MergeAt cmp k minGallop pendingRuns ?i = (runs1, mg1, k1)"
      by (cases "MergeAt cmp k minGallop pendingRuns ?i")
    note p = MergeAt_props [OF i "1.prems"(1) m]
    from "1.prems"(2) have r: "MergeForceCollapse cmp k1 mg1 runs1 = (runs', minGallop', k')"
      by (simp only: unfold l if_True Let_def m prod.case)
    from "1.IH" [OF l refl m [symmetric] refl p(3) r] p(1)
    show ?thesis by simp
  qed
qed

lemma TimSort_loop_props:
  assumes "[] \<notin> set runs"
    and "TimSort_loop cmp k minGallop minRunLength runs remaining = (runs', minGallop', k')"
  shows "mset (concat runs') = mset (concat runs) + mset remaining \<and> [] \<notin> set runs'"
  using assms
proof (induction cmp k minGallop minRunLength runs remaining rule: TimSort_loop.induct)
  case (1 cmp k minGallop minRunLength pendingRuns remaining)
  note unfold = TimSort_loop.simps [of cmp k minGallop minRunLength pendingRuns remaining]
  show ?case
  proof (cases "remaining = []")
    case True
    have "TimSort_loop cmp k minGallop minRunLength pendingRuns remaining =
          (pendingRuns, minGallop, k)"
      by (subst unfold) (simp add: True)
    with "1.prems" True show ?thesis by simp
  next
    case ne: False
    obtain currentRun rest k1 where c: "CountAndMakeRun cmp k remaining = (currentRun, rest, k1)"
      by (cases "CountAndMakeRun cmp k remaining")
    note cm = CountAndMakeRun_mset [OF c] and cn = CountAndMakeRun_nonempty [OF ne c]
    let ?extended =
      "if length currentRun < minRunLength
       then let forcedRunLength = min minRunLength (length remaining)
            in case BinaryInsertionSort cmp k1 currentRun (take (forcedRunLength - length currentRun) rest) of
                 (currentRun', k2) \<Rightarrow> (currentRun', drop (forcedRunLength - length currentRun) rest, k2)
       else (currentRun, rest, k1)"
    obtain currentRun' rest' k2 where e: "?extended = (currentRun', rest', k2)"
      by (cases ?extended)
    have em: "mset currentRun' + mset rest' = mset remaining \<and> currentRun' \<noteq> []"
    proof (cases "length currentRun < minRunLength")
      case True
      let ?m = "min minRunLength (length remaining) - length currentRun"
      obtain ys k3 where b: "BinaryInsertionSort cmp k1 currentRun (take ?m rest) = (ys, k3)"
        by (cases "BinaryInsertionSort cmp k1 currentRun (take ?m rest)")
      from e True b have "currentRun' = ys" and "rest' = drop ?m rest" by (simp_all add: Let_def)
      moreover have "mset rest = mset (take ?m rest) + mset (drop ?m rest)"
        by (simp add: take_drop_mset)
      ultimately show ?thesis
        using BinaryInsertionSort_mset [OF b] BinaryInsertionSort_nonempty [OF b cn] cm
        by (simp add: ac_simps)
    next
      case False
      with e cm cn show ?thesis by simp
    qed
    obtain runs1 mg1 k3
      where mc: "MergeCollapse cmp k2 minGallop (pendingRuns @ [currentRun']) = (runs1, mg1, k3)"
      by (cases "MergeCollapse cmp k2 minGallop (pendingRuns @ [currentRun'])")
    from "1.prems"(1) em have "[] \<notin> set (pendingRuns @ [currentRun'])" by auto
    note p = MergeCollapse_props [OF this mc]
    from "1.prems"(2)
    have r: "TimSort_loop cmp k3 mg1 minRunLength runs1 rest' = (runs', minGallop', k')"
      by (simp only: unfold ne if_False c prod.case e mc)
    from "1.IH" [OF ne c [symmetric] refl e [symmetric] refl mc [symmetric] refl _ r] p em
    show ?thesis by (simp add: ac_simps)
  qed
qed

lemma ArrayTimSortImpl_mset: "mset (fst (ArrayTimSortImpl cmp k workArray)) = mset workArray"
proof (cases "length workArray < 2")
  case True
  then show ?thesis by (simp add: ArrayTimSortImpl_def)
next
  case False
  let ?minRunLength = "ComputeMinRunLength (length workArray)"
  obtain runs1 mg1 k1
    where t: "TimSort_loop cmp k kMinGallopWins ?minRunLength [] workArray = (runs1, mg1, k1)"
    by (cases "TimSort_loop cmp k kMinGallopWins ?minRunLength [] workArray")
  obtain runs2 mg2 k2 where f: "MergeForceCollapse cmp k1 mg1 runs1 = (runs2, mg2, k2)"
    by (cases "MergeForceCollapse cmp k1 mg1 runs1")
  from TimSort_loop_props [OF _ t]
  have p: "mset (concat runs1) = mset workArray" and n: "[] \<notin> set runs1" by simp_all
  from MergeForceCollapse_props [OF n f] p have "mset (concat runs2) = mset workArray" by simp
  with False t f show ?thesis by (simp add: ArrayTimSortImpl_def)
qed

lemma defined_elements:
  "map Some (map the (filter (\<lambda>x. x \<noteq> None) xs)) = filter (\<lambda>x. x \<noteq> None) xs"
  by (induction xs) auto

lemma Array_sort_mset:
  assumes "Array_sort cmp k xs = (ys, k')"
  shows "mset ys = mset xs"
proof (cases "length xs < 2")
  case True
  with assms show ?thesis by (simp add: Array_sort_def)
next
  case False
  let ?defined = "map the (filter (\<lambda>x. x \<noteq> None) xs)"
  obtain zs k1 where s: "ArrayTimSortImpl cmp k ?defined = (zs, k1)"
    by (cases "ArrayTimSortImpl cmp k ?defined")
  from ArrayTimSortImpl_mset [of cmp k ?defined] s have "mset zs = mset ?defined" by simp
  then have "mset (map Some zs) = mset (map Some ?defined)"
    by (metis mset_map)
  then have "mset (map Some zs) = mset (filter (\<lambda>x. x \<noteq> None) xs)"
    by (simp only: defined_elements)
  moreover from assms s False have "ys = map Some zs @ filter (\<lambda>x. x = None) xs"
    by (simp add: Array_sort_def)
  ultimately have "mset ys = mset (filter (\<lambda>x. x \<noteq> None) xs) + mset (filter (\<lambda>x. x = None) xs)"
    by simp
  also have "\<dots> = mset xs"
    by (induction xs) auto
  finally show ?thesis .
qed

text \<open>
  Arrays of two elements take one comparator call: the pair is a run, descending (and
  then reversed) when the call is negative.
\<close>

lemma ComputeMinRunLength_small: "n < 64 \<Longrightarrow> ComputeMinRunLength n = n"
  by (simp add: ComputeMinRunLength_def ComputeMinRunLength_from.simps)

lemma MergeCollapse_single: "MergeCollapse cmp k minGallop [currentRun] = ([currentRun], minGallop, k)"
  by (simp add: MergeCollapse.simps)

lemma MergeForceCollapse_single: "MergeForceCollapse cmp k minGallop [currentRun] = ([currentRun], minGallop, k)"
  by (simp add: MergeForceCollapse.simps)

lemma TimSort_loop_done: "TimSort_loop cmp k minGallop minRunLength pendingRuns [] = (pendingRuns, minGallop, k)"
  by (simp add: TimSort_loop.simps)

lemma Array_sort_pair:
  assumes "cmp k b a = (order, k')"
  shows "Array_sort cmp k [Some a, Some b] =
         (if order < 0 then [Some b, Some a] else [Some a, Some b], k')"
proof -
  have "TimSort_loop cmp k kMinGallopWins minRunLength [] [a, b] =
        ([if order < 0 then [b, a] else [a, b]], kMinGallopWins, k')"
    if "minRunLength \<le> 2" for minRunLength
    using that
    by (subst TimSort_loop.simps)
       (simp add: assms MergeCollapse_single TimSort_loop_done)
  then show ?thesis
    by (simp add: Array_sort_def ArrayTimSortImpl_def ComputeMinRunLength_small
          MergeForceCollapse_single)
qed

text \<open>
  Arrays of three elements: when every call of the comparator is negative, the array is one
  descending run, found with two calls and reversed; when no call is negative it is one
  ascending run. When the second call is negative the run ends after two elements and the
  third element is placed by a binary search, with a third call.
\<close>

lemma Array_sort_three_examples:
  "Array_sort (shuffle_compare low_rng) 0 [Some 1, Some 2, Some (3::nat)] =
     ([Some 3, Some 2, Some 1], 2)"
  "Array_sort (shuffle_compare half_rng) 0 [Some 1, Some 2, Some (3::nat)] =
     ([Some 1, Some 2, Some 3], 2)"
  "Array_sort (shuffle_compare alternating_rng) 0 [Some 1, Some 2, Some (3::nat)] =
     ([Some 1, Some 2, Some 3], 3)"
  by code_simp+

text \<open>
  C8: whatever the comparator draws, the array that \<open>shuffleArray\<close> returns holds the
  elements of the input array with the same multiplicities, and has the same length. No
  assumption is made on the random numbers: the comparator need not be consistent.
\<close>

theorem shuffleArray_permutation:
  assumes "h array = Some xs"
  shows "\<exists>ys k'. shuffleArray rnd k h array = Inr (array, h(array \<mapsto> ys), k') \<and>
           mset ys = mset xs \<and> length ys = length xs"
proof -
  obtain ys k' where s: "Array_sort (shuffle_compare rnd) k xs = (ys, k')"
    by (cases "Array_sort (shuffle_compare rnd) k xs")
  from Array_sort_mset [OF s] have m: "mset ys = mset xs" .
  then have l: "length ys = length xs" by (rule mset_eq_length)
  from assms s have "shuffleArray rnd k h array = Inr (array, h(array \<mapsto> ys), k')"
    by (simp add: shuffleArray_def)
  with m l show ?thesis by blast
qed

text \<open>
  C5, as the code has it: \<open>shuffleArray\<close> sorts the caller's array in place. It returns
  the reference it was given, the array behind that reference holds the shuffled elements
  after the call, and no other array of the store changes.
\<close>

theorem shuffleArray_in_place:
  assumes "shuffleArray rnd k h array = Inr (r, h', k')"
  shows "r = array \<and> (\<forall>b. b \<noteq> array \<longrightarrow> h' b = h b) \<and>
         (\<exists>xs. h array = Some xs \<and> h' array = Some (fst (Array_sort (shuffle_compare rnd) k xs)))"
proof (cases "h array")
  case None
  with assms show ?thesis by (simp add: shuffleArray_def)
next
  case (Some xs)
  with assms show ?thesis
    by (auto simp: shuffleArray_def split: prod.splits)
qed

lemma low_compare: "shuffle_compare low_rng k a b = (- (1 / 2), Suc k)"
proof -
  have "minus_d 0 (1 / 2) = - (1 / 2)" by code_simp
  then show ?thesis by (simp add: shuffle_compare_def Math_random_def low_rng_def)
qed

lemma sample_shuffle:
  "shuffleArray low_rng 0 sample_heap 0 = Inr (0, sample_heap(0 \<mapsto> [Some 2, Some 1]), 1)"
proof -
  have "Array_sort (shuffle_compare low_rng) 0 [Some 1, Some (2::nat)] = ([Some 2, Some 1], 1)"
    using Array_sort_pair [where cmp = "shuffle_compare low_rng" and k = 0 and a = 1 and b = "2::nat",
        OF low_compare]
    by simp
  then show ?thesis by (simp add: shuffleArray_def sample_heap_def)
qed

text \<open>
  C5, as stated, fails: the caller's array \<open>[1, 2]\<close> is \<open>[2, 1]\<close> after the call, and
  the result is the reference that was passed in.
\<close>

theorem shuffleArray_mutates_counterexample:
  "sample_heap 0 = Some [Some 1, Some 2] \<and>
   returned_ref (shuffleArray low_rng 0 sample_heap 0) = Some 0 \<and>
   array_after (shuffleArray low_rng 0 sample_heap 0) 0 = Some [Some 2, Some 1]"
  by (simp add: sample_shuffle returned_ref_def array_after_def) (simp add: sample_heap_def)

theorem shuffleArray_in_place_witness:
  "shuffleArray low_rng 0 sample_heap 0 = Inr (0, sample_heap(0 \<mapsto> [Some 2, Some 1]), 1) \<and>
   (sample_heap(0 \<mapsto> [Some 2, Some 1])) 1 = sample_heap 1 \<and>
   (sample_heap(0 \<mapsto> [Some 2, Some 1])) 0 =
      Some (fst (Array_sort (shuffle_compare low_rng) 0 [Some 1, Some 2]))"
proof -
  note t = shuffleArray_in_place [OF sample_shuffle]
  from t have a: "(sample_heap(0 \<mapsto> [Some 2, Some 1])) 1 = sample_heap 1" by simp
  from t have "\<exists>xs. sample_heap 0 = Some xs \<and>
      (sample_heap(0 \<mapsto> [Some 2, Some 1])) 0 = Some (fst (Array_sort (shuffle_compare low_rng) 0 xs))"
    by blast
  moreover have "sample_heap 0 = Some [Some 1, Some 2]" by (simp add: sample_heap_def)
  ultimately have b: "(sample_heap(0 \<mapsto> [Some 2, Some 1])) 0 =
      Some (fst (Array_sort (shuffle_compare low_rng) 0 [Some 1, Some 2]))" by auto
  from sample_shuffle a b show ?thesis by blast
qed

theorem shuffleArray_permutation_witness:
  "sample_heap 1 = Some [Some 7, None, Some 8] \<and>
   (\<exists>ys k'. shuffleArray half_rng 0 sample_heap 1 = Inr (1, sample_heap(1 \<mapsto> ys), k') \<and>
      mset ys = mset [Some 7, None, Some 8] \<and> length ys = length [Some 7, None, Some (8::nat)])"
proof -
  have h: "sample_heap 1 = Some [Some 7, None, Some 8]" by (simp add: sample_heap_def)
  from shuffleArray_permutation [where h = sample_heap and array = 1 and rnd = half_rng and k = 0, OF h] h
  show ?thesis by blast
qed

lemma hex_digit_char:
  assumes "d < 16"
  shows "digit_char d \<in> set ''0123456789abcdef''"
proof -
  have "\<forall>d \<in> set [0..<16]. digit_char d \<in> set ''0123456789abcdef''"
    by code_simp
  with assms show ?thesis by simp
qed

lemma digit_value_char:
  assumes "d < 36"
  shows "digit_value (digit_char d) = d"
proof -
  have "\<forall>d \<in> set [0..<36]. digit_value (digit_char d) = d"
    by code_simp
  with assms show ?thesis by simp
qed

lemma nat_digits_hex: "set (nat_digits 16 n) \<subseteq> set ''0123456789abcdef''"
proof (induction "16 :: nat" n rule: nat_digits.induct)
  case (1 n)
  show ?case
  proof (cases "n < 16")
    case True
    then show ?thesis using hex_digit_char [of n]
      by (subst nat_digits.simps) (simp del: nat_digits.simps)
  next
    case False
    with 1 have "set (nat_digits 16 (n div 16)) \<subseteq> set ''0123456789abcdef''"
      by (simp del: nat_digits.simps)
    moreover have "digit_char (n mod 16) \<in> set ''0123456789abcdef''"
      by (rule hex_digit_char) simp
    ultimately show ?thesis using False
      by (subst nat_digits.simps) (simp del: nat_digits.simps)
  qed
qed

lemma digits_value_snoc: "digits_value radix (s @ [c]) = radix * digits_value radix s + digit_value c"
  by (simp add: digits_value_def)

lemma digits_value_nat_digits:
  assumes "2 \<le> radix" and "radix \<le> 36"
  shows "digits_value radix (nat_digits radix n) = n"
  using assms
proof (induction radix n rule: nat_digits.induct)
  case (1 radix n)
  show ?case
  proof (cases "n < radix")
    case True
    with 1 have "digit_value (digit_char n) = n" by (intro digit_value_char) simp
    with True show ?thesis
      by (subst nat_digits.simps) (simp add: digits_value_def del: nat_digits.simps)
  next
    case False
    with 1 have ih: "digits_value radix (nat_digits radix (n div radix)) = n div radix"
      by (simp del: nat_digits.simps)
    have "n mod radix < 36" using 1 by (meson le_trans less_le_trans mod_less_divisor not_le zero_less_numeral pos2)
    then have "digit_value (digit_char (n mod radix)) = n mod radix" by (rule digit_value_char)
    with ih False 1 show ?thesis
      by (subst nat_digits.simps) (simp add: digits_value_snoc del: nat_digits.simps)
  qed
qed

lemma color_text:
  assumes "is_draw r"
  shows "set (number_toString 16 \<lfloor>times_d r 16777215\<rfloor>) \<subseteq> set ''0123456789abcdef''
       \<and> number_toString 16 \<lfloor>times_d r 16777215\<rfloor> \<noteq> ''ffffff''"
proof -
  define v where "v = \<lfloor>times_d r 16777215\<rfloor>"
  from color_value [OF assms] have v: "0 \<le> v" "v < 16777215" by (simp_all add: v_def)
  then have t: "number_toString 16 v = nat_digits 16 (nat v)" by (simp add: number_toString_def)
  have "nat_digits 16 (nat v) \<noteq> ''ffffff''"
  proof
    assume "nat_digits 16 (nat v) = ''ffffff''"
    then have "digits_value 16 (nat_digits 16 (nat v)) = digits_value 16 ''ffffff''"
      by (simp del: nat_digits.simps)
    moreover have "digits_value 16 ''ffffff'' = 16777215"
      by (simp add: digits_value_def digit_value_def)
    ultimately have "nat v = 16777215"
      by (simp add: digits_value_nat_digits del: nat_digits.simps)
    with v show False by simp
  qed
  with t nat_digits_hex [of "nat v"] show ?thesis
    by (simp add: v_def del: nat_digits.simps)
qed

lemma randomColor_result:
  assumes "randomColor rnd k = Some y"
  shows "valid_rng rnd \<longrightarrow>
      length (fst y) = 7 \<and> hd (fst y) = CHR ''#'' \<and>
      set (tl (fst y)) \<subseteq> set ''0123456789abcdef'' \<and> fst y \<noteq> ''#ffffff''"
proof (rule randomColor.raw_induct [OF _ assms, where P = "\<lambda>rnd k y. valid_rng rnd \<longrightarrow>
      length (fst y) = 7 \<and> hd (fst y) = CHR ''#'' \<and>
      set (tl (fst y)) \<subseteq> set ''0123456789abcdef'' \<and> fst y \<noteq> ''#ffffff''"])
  fix again :: "rng \<Rightarrow> nat \<Rightarrow> (string \<times> nat) option" and rnd k y
  assume IH: "\<And>rnd k y. again rnd k = Some y \<Longrightarrow> valid_rng rnd \<longrightarrow>
      length (fst y) = 7 \<and> hd (fst y) = CHR ''#'' \<and>
      set (tl (fst y)) \<subseteq> set ''0123456789abcdef'' \<and> fst y \<noteq> ''#ffffff''"
  assume body: "(case Math_random rnd k of
        (r, k') \<Rightarrow>
          (let randomColor' = ''#'' @ number_toString 16 \<lfloor>times_d r 16777215\<rfloor> in
           if length randomColor' = 7 then Some (randomColor', k') else again rnd k')) = Some y"
  show "valid_rng rnd \<longrightarrow>
      length (fst y) = 7 \<and> hd (fst y) = CHR ''#'' \<and>
      set (tl (fst y)) \<subseteq> set ''0123456789abcdef'' \<and> fst y \<noteq> ''#ffffff''"
  proof
    assume valid: "valid_rng rnd"
    then have "is_draw (rnd k)" by (simp add: valid_rng_def)
    note tx = color_text [OF this]
    define t where "t = number_toString 16 \<lfloor>times_d (rnd k) 16777215\<rfloor>"
    from body have b: "(if length t = 6 then Some (CHR ''#'' # t, Suc k) else again rnd (Suc k)) = Some y"
      by (simp add: Math_random_def t_def Let_def split: if_splits)
    show "length (fst y) = 7 \<and> hd (fst y) = CHR ''#'' \<and>
      set (tl (fst y)) \<subseteq> set ''0123456789abcdef'' \<and> fst y \<noteq> ''#ffffff''"
    proof (cases "length t = 6")
      case True
      with b have "y = (CHR ''#'' # t, Suc k)" by simp
      with True tx show ?thesis by (simp add: t_def)
    next
      case False
      with b have "again rnd (Suc k) = Some y" by simp
      from IH [OF this] valid show ?thesis by simp
    qed
  qed
qed

text \<open>
  C9: given draws of \<open>Math.random\<close>, whenever \<open>randomColor\<close> returns, its result has
  exactly seven characters, \<open>#\<close> followed by six lower-case hexadecimal digits, and it
  is never \<open>#ffffff\<close>.
\<close>

theorem randomColor_format:
  assumes "valid_rng rnd" and "randomColor rnd k = Some (s, k')"
  shows "length s = 7 \<and> hd s = CHR ''#'' \<and> set (tl s) \<subseteq> set ''0123456789abcdef'' \<and>
         s \<noteq> ''#ffffff''"
  using randomColor_result [OF assms(2)] assms(1) by simp

lemma randomColor_half: "randomColor half_rng 0 = Some (''#7fffff'', 1)"
proof -
  have v: "\<lfloor>times_d (1 / 2) 16777215\<rfloor> = 8388607"
    by code_simp
  have "number_toString 16 \<lfloor>times_d (1 / 2) 16777215\<rfloor> = ''7fffff''"
    by (simp add: v number_toString_def digit_char_def)
  then show ?thesis
    by (subst randomColor.simps) (simp add: Math_random_def half_rng_def)
qed

theorem randomColor_format_witness:
  "valid_rng half_rng \<and> randomColor half_rng 0 = Some (''#7fffff'', 1) \<and>
   length ''#7fffff'' = 7 \<and> hd ''#7fffff'' = CHR ''#'' \<and>
   set (tl ''#7fffff'') \<subseteq> set ''0123456789abcdef'' \<and> ''#7fffff'' \<noteq> ''#ffffff''"
  by (rule conjI [OF half_rng_valid
        conjI [OF randomColor_half randomColor_format [OF half_rng_valid randomColor_half]]])

text \<open>
  C10 at \<open>min = 3\<close>, \<open>max = 4\<close> and the draw \<open>1 - 2^-52\<close> (0.9999999999999998): the
  product is \<open>2 - 2^-51\<close>, the sum \<open>5 - 2^-51\<close> lies halfway between two doubles and
  rounds to 5, so the result is 5, above \<open>max\<close>.
\<close>

theorem randomNumber_exceeds_max:
  "is_draw (high_rng 0) \<and> randomNumber high_rng 0 3 4 = (5, 1)"
  by code_simp

section \<open>Results: ValidationUtils patterns\<close>

lemma hex_chars: "atom_chars (Cls [(CHR ''0'', CHR ''9''), (CHR ''A'', CHR ''F'')]) = ''0123456789ABCDEF''"
  by code_simp

lemma canon_fixed: "list_all (\<lambda>x. canonicalize x = x) ''0123456789ABCDEF#''"
  by code_simp

lemma canon_hex: "(canonicalize c \<in> set ''0123456789ABCDEF'') = is_hex_digit c"
proof -
  have "\<forall>c. (canonicalize c \<in> set ''0123456789ABCDEF'') = is_hex_digit c"
    by code_simp
  then show ?thesis by simp
qed

lemma canon_hash: "(canonicalize c = CHR ''#'') = (c = CHR ''#'')"
proof -
  have "\<forall>c. (canonicalize c = CHR ''#'') = (c = CHR ''#'')"
    by code_simp
  then show ?thesis by simp
qed


lemma hex_class_match:
  "amatch True (Cls [(CHR ''0'', CHR ''9''), (CHR ''A'', CHR ''F'')]) c = is_hex_digit c"
proof -
  have "list_ex (\<lambda>x. canonicalize x = y) ''0123456789ABCDEF'' = (y \<in> set ''0123456789ABCDEF'')" for y
    using canon_fixed by auto
  then show ?thesis
    by (simp only: amatch_def hex_chars if_True canon_hex)
qed

lemma hash_match: "amatch True (Chr CHR ''#'') c = (c = CHR ''#'')"
proof -
  have "canonicalize CHR ''#'' = CHR ''#''" using canon_fixed by simp
  then have "amatch True (Chr CHR ''#'') c = (CHR ''#'' = canonicalize c)"
    by (simp add: amatch_def)
  also have "\<dots> = (c = CHR ''#'')" using canon_hash [of c] by auto
  finally show ?thesis .
qed


lemma option_case_id: "(case x of None \<Rightarrow> None | Some r \<Rightarrow> Some r) = x"
  by (cases x) simp_all

lemma run_rep_exact:
  "run ic (Rep a n n # ts) pos rest cap =
     (if n \<le> length rest \<and> list_all (amatch ic a) (take n rest)
      then run ic ts (pos + n) (drop n rest) cap else None)"
proof (induction n arbitrary: pos rest)
  case 0
  show ?case by (cases rest) simp_all
next
  case (Suc n)
  show ?case
  proof (cases rest)
    case Nil
    then show ?thesis by simp
  next
    case (Cons c cs)
    with Suc.IH [of "Suc pos" cs] show ?thesis
      by (simp add: option_case_id)
  qed
qed

lemma exec_from_anchored:
  "exec_from ic (Bol # ts) (Suc p) rest = None"
  by (induction rest arbitrary: p) simp_all

lemma exec_anchored:
  "exec_from ic (Bol # ts) 0 s = None \<longleftrightarrow> run ic ts 0 s (None, None) = None"
  by (subst exec_from.simps)
    (simp add: exec_from_anchored del: exec_from.simps split: option.splits list.splits)

lemma six_digits_run:
  "run True [Rep (Cls [(CHR ''0'', CHR ''9''), (CHR ''A'', CHR ''F'')]) 6 6, Eol] p xs cap = None
     \<longleftrightarrow> \<not> six_hex_digits xs"
proof -
  have "list_all (amatch True (Cls [(CHR ''0'', CHR ''9''), (CHR ''A'', CHR ''F'')])) ys
      = list_all is_hex_digit ys" for ys
    by (induction ys) (simp_all add: hex_class_match)
  then show ?thesis
    by (auto simp: run_rep_exact six_hex_digits_def simp del: run.simps(6))
qed

lemma option_orelse_None:
  "((case x of None \<Rightarrow> y | Some r \<Rightarrow> Some r) = None) = (x = None \<and> y = None)"
  by (cases x) simp_all

lemma run_rep_none: "run ic (Rep a 0 0 # ts) pos rest cap = run ic ts pos rest cap"
  by (simp add: run_rep_exact del: run.simps(6))

lemma run_optional_Nil: "run ic (Rep a 0 (Suc 0) # ts) pos [] cap = run ic ts pos [] cap"
  by simp

lemma run_optional_Cons:
  "run ic (Rep a 0 (Suc 0) # ts) pos (c # cs) cap =
     (if amatch ic a c
      then (case run ic ts (Suc pos) cs cap of
              None \<Rightarrow> run ic ts pos (c # cs) cap | Some r \<Rightarrow> Some r)
      else run ic ts pos (c # cs) cap)"
  by (subst run.simps(6)) (simp add: run_rep_none del: run.simps(6))

lemma regex_exec_None: "regex_exec ic ts s = None \<longleftrightarrow> exec_from ic ts 0 s = None"
  by (simp add: regex_exec_def del: exec_from.simps split: option.splits)

text \<open>
  C6: \<open>stringIsHexColor\<close> applies its pattern and answers with a boolean that is true
  exactly for the strings made of an optional leading \<open>#\<close> and then exactly six
  hexadecimal digits, upper or lower case.
\<close>

theorem stringIsHexColor_spec: "stringIsHexColor str \<longleftrightarrow> hex_color_spec str"
proof -
  define T where "T = [Rep (Cls [(CHR ''0'', CHR ''9''), (CHR ''A'', CHR ''F'')]) 6 6, Eol]"
  have six: "(run True T p xs cap = None) = (\<not> six_hex_digits xs)" for p xs cap
    unfolding T_def by (rule six_digits_run)
  have "stringIsHexColor str \<longleftrightarrow>
      run True (Rep (Chr CHR ''#'') 0 (Suc 0) # T) 0 str (None, None) \<noteq> None"
    by (simp add: stringIsHexColor_def regex_exec_None HEX_COLOR_def exec_anchored T_def
        del: exec_from.simps run.simps(6) not_None_eq)
  also have "\<dots> \<longleftrightarrow> hex_color_spec str"
  proof (cases str)
    case Nil
    then show ?thesis
      by (simp add: run_optional_Nil six hex_color_spec_def six_hex_digits_def
          del: run.simps(6) not_None_eq)
  next
    case (Cons c cs)
    then show ?thesis
      by (auto simp: run_optional_Cons six hash_match option_orelse_None hex_color_spec_def
          simp del: run.simps(6) not_None_eq)
  qed
  finally show ?thesis .
qed

theorem stringIsHexColor_spec_witness:
  "stringIsHexColor ''#1aF09c'' \<and> stringIsHexColor ''C0FFEE'' \<and>
   \<not> stringIsHexColor ''#12345'' \<and> \<not> stringIsHexColor ''#12345g'' \<and>
   \<not> stringIsHexColor ''x#123456''"
proof -
  have "hex_color_spec ''#1aF09c''" "hex_color_spec ''C0FFEE''"
    "\<not> hex_color_spec ''#12345''" "\<not> hex_color_spec ''#12345g''"
    "\<not> hex_color_spec ''x#123456''"
    by (simp_all add: hex_color_spec_def six_hex_digits_def is_hex_digit_def)
  then show ?thesis by (simp only: stringIsHexColor_spec simp_thms)
qed

section \<open>Results: resolveUser\<close>

lemma collection_find_named:
  assumes "\<forall>u \<in> set us. username u \<noteq> None"
  shows "\<exists>r. collection_find (find_callback toLowerCase query) us = Inr r"
  using assms
  by (induction us) (auto simp: find_callback_def split: option.splits)

lemma collection_find_none:
  assumes "\<forall>u \<in> set us. \<exists>name. username u = Some name \<and> name \<noteq> query \<and>
      \<not> string_includes (toLowerCase name) (toLowerCase query)"
  shows "collection_find (find_callback toLowerCase query) us = Inr None"
  using assms
  by (induction us) (auto simp: find_callback_def)

lemma resolveUser_named_cache:
  assumes "\<forall>u \<in> set (users_cache cl). username u \<noteq> None"
  shows "\<exists>r. resolveUser toLowerCase cl query exact = Inr r"
proof -
  from collection_find_named [OF assms]
  have c: "\<exists>r. resolveUser_cached toLowerCase cl query exact = Inr r"
    by (simp add: resolveUser_cached_def Let_def)
  show ?thesis
  proof (cases "regex_exec False USER_MENTION query")
    case None
    with c show ?thesis by (simp add: resolveUser_def)
  next
    case (Some m)
    with c show ?thesis
      by (cases "users_fetch cl (match_at m 1)") (simp_all add: resolveUser_def)
  qed
qed

lemma resolveUser_failed_lookup:
  assumes "\<forall>m. regex_exec False USER_MENTION query = Some m \<longrightarrow>
      (\<exists>e. users_fetch cl (match_at m 1) = Inl e)"
    and "\<forall>u \<in> set (users_cache cl). \<exists>name. username u = Some name \<and> name \<noteq> query \<and>
      \<not> string_includes (toLowerCase name) (toLowerCase query)"
  shows "resolveUser toLowerCase cl query exact = Inr None"
proof -
  from assms(2) have "filter (\<lambda>user. username user = Some query) (users_cache cl) = []"
    by (auto simp: filter_empty_conv)
  with collection_find_none [OF assms(2)]
  have c: "resolveUser_cached toLowerCase cl query exact = Inr None"
    by (simp add: resolveUser_cached_def)
  show ?thesis
  proof (cases "regex_exec False USER_MENTION query")
    case None
    with c show ?thesis by (simp add: resolveUser_def)
  next
    case (Some m)
    with assms(1) obtain e where "users_fetch cl (match_at m 1) = Inl e" by blast
    with Some c show ?thesis by (simp add: resolveUser_def)
  qed
qed

lemma mention_known:
  "regex_exec False USER_MENTION ''hi <@!123456789012345678>'' =
     Some [Some ''<@!123456789012345678>'', Some ''123456789012345678'']"
  by code_simp

lemma no_mention: "regex_exec False USER_MENTION ''bob'' = None"
  by code_simp

lemma resolveUser_examples:
  "resolveUser ascii_toLowerCase sample_client ''hi <@!123456789012345678>'' False =
     Inr (Some \<lparr>user_id = ''123456789012345678'', username = Some ''Carol''\<rparr>) \<and>
   resolveUser ascii_toLowerCase sample_client ''Bob'' True =
     Inr (Some \<lparr>user_id = ''222222222222222222'', username = Some ''Bob''\<rparr>) \<and>
   resolveUser ascii_toLowerCase sample_client ''LIC'' False =
     Inr (Some \<lparr>user_id = ''111111111111111111'', username = Some ''Alice''\<rparr>) \<and>
   resolveUser ascii_toLowerCase sample_client ''LIC'' True = Inr None"
  by code_simp

text \<open>
  C4 at the query \<open>bob\<close>, no exact match asked for, with a partial user in the cache: the
  query holds no mention, no cached user has that name, and the search then calls
  \<open>toLowerCase\<close> on the \<open>null\<close> user name; the TypeError is not caught and the promise
  of \<open>resolveUser\<close> rejects, whatever \<open>toLowerCase\<close> does.
\<close>

theorem resolveUser_rejects_on_partial_user:
  "resolveUser toLowerCase partial_client ''bob'' False = Inl TypeError"
  by (simp add: resolveUser_def no_mention resolveUser_cached_def partial_client_def
      find_callback_def)

end
